theory Spec2Isabelle
  imports Complex_Main "HOL-Library.Word" "HOL-Library.Sublist"
begin

section \<open>JavaScript strings, arrays and sets\<close>

text \<open>
  A JavaScript string is a sequence of 16-bit code units; \<open>length\<close> counts code units and
  \<open>===\<close> compares them one by one. ASCII literals are written \<open>jsstr ''...''\<close>.
\<close>

type_synonym jschar = "16 word"
type_synonym jsstring = "jschar list"

definition jsstr :: "string \<Rightarrow> jsstring" where
  "jsstr s = map (\<lambda>c. of_nat (of_char c)) s"

text \<open>The characters matched by the regular expression class \<open>\s\<close>.\<close>

definition isSpace :: "jschar \<Rightarrow> bool" where
  "isSpace c = (c = 9 \<or> c = 10 \<or> c = 11 \<or> c = 12 \<or> c = 13 \<or> c = 32 \<or> c = 160
      \<or> c = 5760 \<or> (8192 \<le> c \<and> c \<le> 8202) \<or> c = 8232 \<or> c = 8233 \<or> c = 8239
      \<or> c = 8287 \<or> c = 12288 \<or> c = 65279)"

text \<open>
  \<open>s.substring(a, b)\<close> for non-negative integer arguments: both are clamped to the length
  and swapped when \<open>a > b\<close>.
\<close>

definition substring :: "'a list \<Rightarrow> nat \<Rightarrow> nat \<Rightarrow> 'a list" where
  "substring s a b =
     (let a' = min a (length s); b' = min b (length s);
          lo = min a' b'; hi = max a' b'
      in take (hi - lo) (drop lo s))"

text \<open>\<open>xs.slice(a, b)\<close> for non-negative integer arguments: clamped, empty when \<open>a \<ge> b\<close>.\<close>

definition slice :: "'a list \<Rightarrow> nat \<Rightarrow> nat \<Rightarrow> 'a list" where
  "slice xs a b =
     (let k = min a (length xs); final = min b (length xs)
      in take (final - k) (drop k xs))"

text \<open>\<open>xs.join(sep)\<close>.\<close>

fun join :: "'a list \<Rightarrow> 'a list list \<Rightarrow> 'a list" where
  "join sep [] = []"
| "join sep [w] = w"
| "join sep (w # v # ws) = w @ sep @ join sep (v # ws)"

text \<open>
  \<open>s.split(/\s+/)\<close>: the pieces between maximal runs of white space. The empty string
  gives one empty piece; white space at the start or at the end of the string gives an
  empty first or last piece.
\<close>

function split_ws :: "jsstring \<Rightarrow> jsstring list" where
  "split_ws s =
     (if dropWhile (\<lambda>c. \<not> isSpace c) s = [] then [takeWhile (\<lambda>c. \<not> isSpace c) s]
      else takeWhile (\<lambda>c. \<not> isSpace c) s #
           split_ws (dropWhile isSpace (dropWhile (\<lambda>c. \<not> isSpace c) s)))"
  by pat_completeness auto
termination
proof (relation "measure length")
  fix s :: jsstring
  assume ne: "dropWhile (\<lambda>c. \<not> isSpace c) s \<noteq> []"
  then have "isSpace (hd (dropWhile (\<lambda>c. \<not> isSpace c) s))"
    using hd_dropWhile [of "\<lambda>c. \<not> isSpace c" s] by simp
  with ne have "length (dropWhile isSpace (dropWhile (\<lambda>c. \<not> isSpace c) s))
      < length (dropWhile (\<lambda>c. \<not> isSpace c) s)"
    by (cases "dropWhile (\<lambda>c. \<not> isSpace c) s") (auto simp: less_Suc_eq_le length_dropWhile_le)
  also have "\<dots> \<le> length s"
    by (rule length_dropWhile_le)
  finally show "(dropWhile isSpace (dropWhile (\<lambda>c. \<not> isSpace c) s), s) \<in> measure length"
    by simp
qed simp

declare split_ws.simps [simp del]

text \<open>
  A JavaScript \<open>Set\<close> keeps its elements in insertion order, without duplicates:
  a list, \<open>add\<close> appending an element that is not there yet.
\<close>

definition Set_add :: "'a list \<Rightarrow> 'a \<Rightarrow> 'a list" where
  "Set_add s x = (if x \<in> set s then s else s @ [x])"

definition newSet :: "'a list \<Rightarrow> 'a list" where
  "newSet xs = fold (\<lambda>x s. Set_add s x) xs []"

section \<open>Text processing\<close>

text \<open>
  \<open>createShingles(text, k)\<close>: the loop \<open>for (i = 0; i <= words.length - k; i++)\<close> runs for
  \<open>i = 0, ..., words.length - k\<close>, and not at all when \<open>k > words.length\<close>.
\<close>

definition createShingles :: "jsstring \<Rightarrow> nat \<Rightarrow> jsstring list" where
  "createShingles text k =
     (let words = split_ws text
      in fold (\<lambda>i shingles. shingles @ [join [32] (slice words i (i + k))])
           [0 ..< Suc (length words) - k] [])"

text \<open>The number of words as \<open>computeAllSimilarities\<close> counts them:
  \<open>content.split(/\s+/).filter(Boolean).length\<close>.\<close>

definition wordCount :: "jsstring \<Rightarrow> nat" where
  "wordCount text = length (filter (\<lambda>w. w \<noteq> []) (split_ws text))"

text \<open>
  \<open>rabinKarpHash(str, prime)\<close>; every intermediate value is a small non-negative integer.
  The only caller passes \<open>prime = 101\<close>.
\<close>

definition rabinKarpHash :: "jsstring \<Rightarrow> nat \<Rightarrow> nat" where
  "rabinKarpHash str prime = fold (\<lambda>c hash. (hash * 256 + unat c) mod prime) str 0"

text \<open>
  The numbers of \<open>rabinKarpSearch\<close> are IEEE doubles. Every finite value that occurs there
  is an integer below \<open>2^53\<close> or a small multiple of \<open>2^-8\<close>, which doubles represent
  exactly, so finite values are rationals; \<open>NaN\<close> is a value of its own.
\<close>

datatype jsnum = Num rat | NaN

fun js_add :: "jsnum \<Rightarrow> jsnum \<Rightarrow> jsnum" where
  "js_add (Num a) (Num b) = Num (a + b)"
| "js_add _ _ = NaN"

fun js_sub :: "jsnum \<Rightarrow> jsnum \<Rightarrow> jsnum" where
  "js_sub (Num a) (Num b) = Num (a - b)"
| "js_sub _ _ = NaN"

fun js_mul :: "jsnum \<Rightarrow> jsnum \<Rightarrow> jsnum" where
  "js_mul (Num a) (Num b) = Num (a * b)"
| "js_mul _ _ = NaN"

text \<open>\<open>x % p\<close> for a finite \<open>p > 0\<close>: the remainder has the sign of \<open>x\<close>.\<close>

definition fmod :: "rat \<Rightarrow> rat \<Rightarrow> rat" where
  "fmod x p = x - p * of_int (if 0 \<le> x then \<lfloor>x / p\<rfloor> else \<lceil>x / p\<rceil>)"

fun js_rem :: "jsnum \<Rightarrow> rat \<Rightarrow> jsnum" where
  "js_rem (Num a) p = Num (fmod a p)"
| "js_rem NaN p = NaN"

text \<open>\<open>x === y\<close> and \<open>x < y\<close> on numbers: false as soon as one side is \<open>NaN\<close>.\<close>

fun js_eq :: "jsnum \<Rightarrow> jsnum \<Rightarrow> bool" where
  "js_eq (Num a) (Num b) = (a = b)"
| "js_eq _ _ = False"

fun js_lt :: "jsnum \<Rightarrow> jsnum \<Rightarrow> bool" where
  "js_lt (Num a) (Num b) = (a < b)"
| "js_lt _ _ = False"

definition charCodeAt :: "jsstring \<Rightarrow> nat \<Rightarrow> jsnum" where
  "charCodeAt s i = (if i < length s then Num (of_nat (unat (s ! i))) else NaN)"

text \<open>
  \<open>Math.pow(256, e) % 101\<close> for an integer \<open>e \<ge> -1\<close>. The power \<open>256^e = 2^(8e)\<close> is a
  double up to \<open>e = 127\<close>; from \<open>e = 128\<close> on \<open>Math.pow\<close> returns \<open>Infinity\<close>, and
  \<open>Infinity % 101\<close> is \<open>NaN\<close>.
\<close>

definition pow256_rem :: "int \<Rightarrow> jsnum" where
  "pow256_rem e = (if 128 \<le> e then NaN else Num (fmod (power_int 256 e) 101))"

text \<open>One iteration of the search loop, on the state \<open>(matches, textHash)\<close>.\<close>

definition rk_step ::
  "jsstring \<Rightarrow> jsstring \<Rightarrow> jsnum \<Rightarrow> jsnum \<Rightarrow> nat \<Rightarrow> nat list \<times> jsnum \<Rightarrow> nat list \<times> jsnum" where
  "rk_step text pattern patternHash h i st =
     (let m = length pattern; n = length text;
          matches = fst st; textHash = snd st;
          matches' = (if js_eq patternHash textHash
                      then (if substring text i (i + m) = pattern then matches @ [i]
                            else matches)
                      else matches);
          textHash' = (if i < n - m
                       then (let t = js_rem (js_add
                                       (js_mul (Num 256)
                                          (js_sub textHash (js_mul (charCodeAt text i) h)))
                                       (charCodeAt text (i + m))) 101
                             in if js_lt t (Num 0) then js_add t (Num 101) else t)
                       else textHash)
      in (matches', textHash'))"

definition rabinKarpSearch :: "jsstring \<Rightarrow> jsstring \<Rightarrow> nat list" where
  "rabinKarpSearch text pattern =
     (let m = length pattern; n = length text
      in if m > n then []
         else (let patternHash = Num (of_nat (rabinKarpHash pattern 101));
                   textHash = Num (of_nat (rabinKarpHash (substring text 0 m) 101));
                   h = pow256_rem (int m - 1)
               in fst (fold (rk_step text pattern patternHash h) [0 ..< Suc (n - m)]
                        ([], textHash))))"

text \<open>
  \<open>editDistance\<close>: the table \<open>dp\<close> is a list of rows; the two initialising loops and the
  nested filling loops are folds over the index ranges.
\<close>

definition ed_cell :: "'a list \<Rightarrow> 'a list \<Rightarrow> nat \<Rightarrow> nat \<Rightarrow> nat list list \<Rightarrow> nat list list" where
  "ed_cell str1 str2 i j dp =
     (if str1 ! (i - 1) = str2 ! (j - 1)
      then dp[i := (dp ! i)[j := dp ! (i - 1) ! (j - 1)]]
      else dp[i := (dp ! i)[j := 1 + min (dp ! (i - 1) ! j)
                                      (min (dp ! i ! (j - 1)) (dp ! (i - 1) ! (j - 1)))]])"

definition ed_init :: "nat \<Rightarrow> nat \<Rightarrow> nat list list" where
  "ed_init m n =
     (let dp0 = replicate (m + 1) (replicate (n + 1) 0);
          dp1 = fold (\<lambda>i dp. dp[i := (dp ! i)[0 := i]]) [0 ..< Suc m] dp0
      in fold (\<lambda>j dp. dp[0 := (dp ! 0)[j := j]]) [0 ..< Suc n] dp1)"

definition editDistance :: "'a list \<Rightarrow> 'a list \<Rightarrow> nat" where
  "editDistance str1 str2 =
     (let m = length str1; n = length str2;
          dp = fold (\<lambda>i dp. fold (ed_cell str1 str2 i) [1 ..< Suc n] dp) [1 ..< Suc m]
                 (ed_init m n)
      in dp ! m ! n)"

text \<open>
  \<open>longestCommonSubstring\<close>: the loop state is \<open>(dp, maxLength, endIndex)\<close>. The cap
  \<open>maxChars\<close> is a number of characters, a natural number.
\<close>

definition lcs_cell ::
  "'a list \<Rightarrow> 'a list \<Rightarrow> nat \<Rightarrow> nat \<Rightarrow> nat list list \<times> nat \<times> nat \<Rightarrow> nat list list \<times> nat \<times> nat" where
  "lcs_cell s1 s2 i j st =
     (case st of (dp, maxLength, endIndex) \<Rightarrow>
        if s1 ! (i - 1) = s2 ! (j - 1)
        then (let v = dp ! (i - 1) ! (j - 1) + 1;
                  dp' = dp[i := (dp ! i)[j := v]]
              in if v > maxLength then (dp', v, i) else (dp', maxLength, endIndex))
        else (dp, maxLength, endIndex))"

definition lcs_table :: "'a list \<Rightarrow> 'a list \<Rightarrow> nat list list \<times> nat \<times> nat" where
  "lcs_table s1 s2 =
     (let m = length s1; n = length s2
      in fold (\<lambda>i st. fold (lcs_cell s1 s2 i) [1 ..< Suc n] st) [1 ..< Suc m]
           (replicate (m + 1) (replicate (n + 1) 0), 0, 0))"

definition longestCommonSubstring :: "'a list \<Rightarrow> 'a list \<Rightarrow> nat \<Rightarrow> 'a list" where
  "longestCommonSubstring str1 str2 maxChars =
     (let s1 = (if length str1 > maxChars then substring str1 0 maxChars else str1);
          s2 = (if length str2 > maxChars then substring str2 0 maxChars else str2)
      in case lcs_table s1 s2 of (dp, maxLength, endIndex) \<Rightarrow>
           substring s1 (endIndex - maxLength) endIndex)"

section \<open>Pairwise similarity\<close>

text \<open>
  Scores are JavaScript numbers; they are modelled by the exact rationals that the
  double operations round.
\<close>

record docinfo =
  doc_id :: jsstring
  doc_name :: jsstring

record document = docinfo +
  content :: jsstring

record SimilarityResult =
  doc1Id :: jsstring
  doc2Id :: jsstring
  doc1Name :: jsstring
  doc2Name :: jsstring
  similarity :: rat
  matchedSections :: "jsstring list"
  rawMatchCount :: nat
  avgWords :: nat
  matchMetric :: rat
  compositeScore :: rat

definition jaccardSimilarity :: "'a list \<Rightarrow> 'a list \<Rightarrow> rat" where
  "jaccardSimilarity shingles1 shingles2 =
     (let set1 = newSet shingles1; set2 = newSet shingles2;
          intersection = newSet (filter (\<lambda>x. x \<in> set set2) set1);
          union = newSet (set1 @ set2)
      in if length union = 0 then 0
         else of_nat (length intersection) / of_nat (length union))"

text \<open>The body of the two loops of \<open>computeAllSimilarities\<close>, for the pair \<open>(i, j)\<close>.\<close>

definition pairResult ::
  "document list \<Rightarrow> jsstring list list \<Rightarrow> nat list \<Rightarrow> nat \<Rightarrow> nat \<Rightarrow> SimilarityResult" where
  "pairResult documents preShingles wordCounts i j =
     (let s1 = preShingles ! i; s2 = preShingles ! j;
          jaccardScore = jaccardSimilarity s1 s2;
          set1 = newSet s1; set2 = newSet s2;
          commonCount = fold (\<lambda>sh c. if sh \<in> set set2 then c + 1 else c) set1 (0::nat);
          avgWords = max 1 ((wordCounts ! i + wordCounts ! j) div 2);
          matchMetric = (of_nat commonCount / of_nat avgWords) * 100;
          c1 = content (documents ! i); c2 = content (documents ! j);
          compositeScore =
            (if jaccardScore > 15 / 100
             then (let sample1 = substring c1 0 500; sample2 = substring c2 0 500;
                       maxLen = max (length sample1) (length sample2);
                       editDist = editDistance sample1 sample2;
                       editScore = (if maxLen = 0 then 0
                                    else 1 - of_nat editDist / of_nat maxLen);
                       lcs = longestCommonSubstring c1 c2 800;
                       denom = min (min (length c1) (length c2)) 800;
                       lcsScore = (if denom = 0 then 0
                                   else of_nat (length lcs) / of_nat denom)
                   in jaccardScore * (5 / 10) + editScore * (3 / 10) + lcsScore * (2 / 10))
             else jaccardScore);
          matchedSections =
            (if matchMetric \<ge> 5
             then (let lcsVerbose = longestCommonSubstring c1 c2 2000
                   in if length lcsVerbose > 50
                      then [substring lcsVerbose 0 200 @ jsstr ''...'']
                      else [])
             else [])
      in \<lparr> doc1Id = doc_id (documents ! i), doc2Id = doc_id (documents ! j),
           doc1Name = doc_name (documents ! i), doc2Name = doc_name (documents ! j),
           similarity = matchMetric, matchedSections = matchedSections,
           rawMatchCount = commonCount, avgWords = avgWords,
           matchMetric = matchMetric, compositeScore = compositeScore * 100 \<rparr>)"

definition computeAllSimilarities :: "document list \<Rightarrow> SimilarityResult list" where
  "computeAllSimilarities documents =
     (let preShingles = map (\<lambda>d. createShingles (content d) 3) documents;
          wordCounts = map (\<lambda>d. wordCount (content d)) documents
      in fold (\<lambda>i results.
                 fold (\<lambda>j results. results @ [pairResult documents preShingles wordCounts i j])
                   [i + 1 ..< length documents] results)
           [0 ..< length documents] [])"

section \<open>Clustering\<close>

text \<open>
  The adjacency list is a \<open>Map\<close> from vertex to a \<open>Set\<close> of vertices, both iterated in
  insertion order: an association list with distinct keys whose values are duplicate-free
  lists.
\<close>

type_synonym Graph = "(jsstring \<times> jsstring list) list"

definition addVertex :: "Graph \<Rightarrow> jsstring \<Rightarrow> Graph" where
  "addVertex g vertex = (if vertex \<in> fst ` set g then g else g @ [(vertex, [])])"

text \<open>\<open>this.adjList.get(v1)!.add(v2)\<close>.\<close>

definition adj_add :: "Graph \<Rightarrow> jsstring \<Rightarrow> jsstring \<Rightarrow> Graph" where
  "adj_add g v1 v2 = map (\<lambda>(k, ns). if k = v1 then (k, Set_add ns v2) else (k, ns)) g"

definition addEdge :: "Graph \<Rightarrow> jsstring \<Rightarrow> jsstring \<Rightarrow> Graph" where
  "addEdge g v1 v2 = adj_add (adj_add (addVertex (addVertex g v1) v2) v1 v2) v2 v1"

text \<open>\<open>this.adjList.get(vertex) || new Set()\<close>.\<close>

definition neighbors :: "Graph \<Rightarrow> jsstring \<Rightarrow> jsstring list" where
  "neighbors g vertex = (case map_of g vertex of None \<Rightarrow> [] | Some ns \<Rightarrow> ns)"

definition vertices :: "Graph \<Rightarrow> jsstring set" where
  "vertices g = fst ` set g \<union> \<Union> (set ` snd ` set g)"

text \<open>
  The recursive \<open>dfs(vertex, component)\<close> with its call stack made explicit. The first
  argument is the list of vertices still to be looked at: the neighbours that the
  \<open>for\<close> loops of the active calls have not reached yet, innermost call first. Taking a
  visited vertex off the list is the failed test \<open>!visited.has(neighbor)\<close>; taking an
  unvisited one is the call \<open>dfs(neighbor, component)\<close>, which marks it, appends it to the
  component and starts the loop over its neighbours. The state is
  \<open>(visited, component)\<close>.
\<close>

function dfs :: "Graph \<Rightarrow> jsstring list \<Rightarrow> jsstring list \<times> jsstring list
    \<Rightarrow> jsstring list \<times> jsstring list" where
  "dfs g [] st = st"
| "dfs g (v # stack) st =
     (if v \<in> set (fst st) then dfs g stack st
      else dfs g (neighbors g v @ stack) (v # fst st, snd st @ [v]))"
  by pat_completeness auto
termination
proof (relation "(\<lambda>(g, stack, st). card ((vertices g \<union> set stack) - set (fst st))) <*mlex*>
                 measure (\<lambda>(g, stack, st). length stack)")
  show "wf ((\<lambda>(g, stack, st). card ((vertices g \<union> set stack) - set (fst st))) <*mlex*>
            measure (\<lambda>(g, stack, st). length stack))"
    by (simp add: wf_mlex)
next
  fix g :: Graph and v :: jsstring and stack :: "jsstring list"
    and st :: "jsstring list \<times> jsstring list"
  assume "v \<in> set (fst st)"
  then have "(vertices g \<union> set stack) - set (fst st)
      = (vertices g \<union> set (v # stack)) - set (fst st)"
    by auto
  then show "((g, stack, st), (g, v # stack, st))
      \<in> (\<lambda>(g, stack, st). card ((vertices g \<union> set stack) - set (fst st))) <*mlex*>
         measure (\<lambda>(g, stack, st). length stack)"
    by (auto intro!: mlex_leq)
next
  fix g :: Graph and v :: jsstring and stack :: "jsstring list"
    and st :: "jsstring list \<times> jsstring list"
  assume v: "v \<notin> set (fst st)"
  have fin: "finite ((vertices g \<union> set (v # stack)) - set (fst st))"
    by (simp add: vertices_def)
  have nb: "set (neighbors g v) \<subseteq> vertices g"
  proof (cases "map_of g v")
    case None
    then show ?thesis by (simp add: neighbors_def)
  next
    case (Some ns)
    then have "(v, ns) \<in> set g" by (rule map_of_SomeD)
    then have "set ns \<subseteq> \<Union> (set ` snd ` set g)" by force
    with Some show ?thesis by (auto simp: neighbors_def vertices_def)
  qed
  have "(vertices g \<union> set (neighbors g v @ stack)) - set (fst (v # fst st, snd st @ [v]))
      \<subset> (vertices g \<union> set (v # stack)) - set (fst st)"
    using v nb by auto
  then have "card ((vertices g \<union> set (neighbors g v @ stack))
        - set (fst (v # fst st, snd st @ [v])))
      < card ((vertices g \<union> set (v # stack)) - set (fst st))"
    using fin by (rule psubset_card_mono [rotated])
  then show "((g, neighbors g v @ stack, v # fst st, snd st @ [v]), (g, v # stack, st))
      \<in> (\<lambda>(g, stack, st). card ((vertices g \<union> set stack) - set (fst st))) <*mlex*>
         measure (\<lambda>(g, stack, st). length stack)"
    by (auto intro!: mlex_less)
qed

text \<open>
  \<open>findConnectedComponents\<close>: the loop over \<open>this.adjList.keys()\<close>, on the state
  \<open>(visited, components)\<close>.
\<close>

definition findConnectedComponents :: "Graph \<Rightarrow> jsstring list list" where
  "findConnectedComponents g =
     snd (fold (\<lambda>vertex (visited, components).
                  if vertex \<in> set visited then (visited, components)
                  else (case dfs g [vertex] (visited, []) of
                          (visited', component) \<Rightarrow> (visited', components @ [component])))
            (map fst g) ([], []))"

record Cluster =
  cluster_id :: nat
  documents :: "jsstring list"
  avgSimilarity :: rat

definition buildGraph :: "'a docinfo_scheme list \<Rightarrow> SimilarityResult list \<Rightarrow> rat \<Rightarrow> Graph" where
  "buildGraph docs similarities threshold =
     (let graph = fold (\<lambda>doc g. addVertex g (doc_id doc)) docs []
      in fold (\<lambda>sim g. if similarity sim \<ge> threshold
                        then addEdge g (doc1Id sim) (doc2Id sim) else g)
           similarities graph)"

definition mkCluster :: "SimilarityResult list \<Rightarrow> nat \<times> jsstring list \<Rightarrow> Cluster" where
  "mkCluster similarities ic =
     (case ic of (index, component) \<Rightarrow>
        (let clusterSims = filter (\<lambda>sim. doc1Id sim \<in> set component
                                          \<and> doc2Id sim \<in> set component)
                             similarities;
             avgSim = (if length clusterSims > 0
                       then fold (\<lambda>s sum. sum + similarity s) clusterSims 0
                            / of_nat (length clusterSims)
                       else 0)
         in \<lparr> cluster_id = index, documents = component, avgSimilarity = avgSim \<rparr>))"

definition createClusters ::
  "'a docinfo_scheme list \<Rightarrow> SimilarityResult list \<Rightarrow> rat \<Rightarrow> Cluster list" where
  "createClusters docs similarities threshold =
     (let graph = buildGraph docs similarities threshold;
          components = findConnectedComponents graph
      in map (mkCluster similarities)
           (enumerate 0 (filter (\<lambda>component. length component > 1) components)))"

section \<open>Notions used in the proofs\<close>

text \<open>
  The Levenshtein distance as a recursive function on lists: the reference against which
  the table of \<open>editDistance\<close> is checked.
\<close>

fun levenshtein :: "'a list \<Rightarrow> 'a list \<Rightarrow> nat" where
  "levenshtein [] ys = length ys"
| "levenshtein (x # xs) [] = Suc (length xs)"
| "levenshtein (x # xs) (y # ys) =
     (if x = y then levenshtein xs ys
      else 1 + min (levenshtein xs (y # ys)) (min (levenshtein (x # xs) ys) (levenshtein xs ys)))"

text \<open>A table of \<open>m + 1\<close> rows of \<open>n + 1\<close> cells.\<close>

definition table :: "nat list list \<Rightarrow> nat \<Rightarrow> nat \<Rightarrow> bool" where
  "table dp m n \<longleftrightarrow> length dp = Suc m \<and> (\<forall>i\<le>m. length (dp ! i) = Suc n)"

text \<open>
  What cell \<open>(i, j)\<close> of the table of \<open>editDistance\<close> has to hold, and the invariant of
  its loops: the cells of row 0, of column 0, of the rows before \<open>i\<close> and of row \<open>i\<close>
  before column \<open>j\<close> are filled in.
\<close>

definition edD :: "'a list \<Rightarrow> 'a list \<Rightarrow> nat \<Rightarrow> nat \<Rightarrow> nat" where
  "edD s1 s2 i j = levenshtein (rev (take i s1)) (rev (take j s2))"

definition ed_inv :: "'a list \<Rightarrow> 'a list \<Rightarrow> nat \<Rightarrow> nat \<Rightarrow> nat list list \<Rightarrow> bool" where
  "ed_inv s1 s2 i j dp \<longleftrightarrow>
     table dp (length s1) (length s2) \<and>
     (\<forall>i'\<le>length s1. \<forall>j'\<le>length s2.
        (i' = 0 \<or> j' = 0 \<or> i' < i \<or> (i' = i \<and> j' < j)) \<longrightarrow> dp ! i' ! j' = edD s1 s2 i' j')"

text \<open>
  The length of the longest common prefix of two lists; on reversed prefixes of the two
  strings it is what cell \<open>(i, j)\<close> of the table of \<open>longestCommonSubstring\<close> has to
  hold: the length of the longest common suffix of the first \<open>i\<close> and the first \<open>j\<close>
  characters. The invariant of the loops: the cells before \<open>(i, j)\<close> are filled in, the
  others are still 0, \<open>maxLength\<close> bounds the filled cells and is the value of a cell of
  row \<open>endIndex\<close>.
\<close>

fun cpl :: "'a list \<Rightarrow> 'a list \<Rightarrow> nat" where
  "cpl (x # xs) (y # ys) = (if x = y then Suc (cpl xs ys) else 0)"
| "cpl _ _ = 0"

definition lcsL :: "'a list \<Rightarrow> 'a list \<Rightarrow> nat \<Rightarrow> nat \<Rightarrow> nat" where
  "lcsL s1 s2 i j = cpl (rev (take i s1)) (rev (take j s2))"

definition lcs_inv ::
  "'a list \<Rightarrow> 'a list \<Rightarrow> nat \<Rightarrow> nat \<Rightarrow> nat list list \<times> nat \<times> nat \<Rightarrow> bool" where
  "lcs_inv s1 s2 i j st \<longleftrightarrow>
     (case st of (dp, maxLength, endIndex) \<Rightarrow>
        table dp (length s1) (length s2) \<and>
        (\<forall>i'\<le>length s1. \<forall>j'\<le>length s2.
           dp ! i' ! j' = (if i' < i \<or> (i' = i \<and> j' < j) then lcsL s1 s2 i' j' else 0)) \<and>
        (\<forall>i'\<le>length s1. \<forall>j'\<le>length s2.
           i' < i \<or> (i' = i \<and> j' < j) \<longrightarrow> lcsL s1 s2 i' j' \<le> maxLength) \<and>
        endIndex \<le> length s1 \<and>
        (\<exists>j'\<le>length s2. lcsL s1 s2 endIndex j' = maxLength))"

text \<open>
  The result that the loops of \<open>computeAllSimilarities\<close> push for the pair \<open>(i, j)\<close>: the
  loop body, on the shingles and word counts computed before the loops.
\<close>

definition resultOf :: "document list \<Rightarrow> nat \<Rightarrow> nat \<Rightarrow> SimilarityResult" where
  "resultOf docs i j =
     pairResult docs (map (\<lambda>d. createShingles (content d) 3) docs)
       (map (\<lambda>d. wordCount (content d)) docs) i j"

text \<open>An example document.\<close>

definition doc_abc :: document where
  "doc_abc = \<lparr> doc_id = jsstr ''d'', doc_name = jsstr ''d'', content = jsstr ''a b c'' \<rparr>"

text \<open>The edge relation of a graph: \<open>w\<close> is in the neighbour set of \<open>u\<close>.\<close>

definition edges :: "Graph \<Rightarrow> (jsstring \<times> jsstring) set" where
  "edges g = {(u, w). w \<in> set (neighbors g u)}"

text \<open>
  Example input for clustering: four documents \<open>a\<close>, \<open>b\<close>, \<open>c\<close>, \<open>d\<close> with
  \<open>similarity(a, b) = 90\<close>, \<open>similarity(c, d) = 90\<close> and \<open>similarity(b, c) = 40\<close>.
\<close>

definition ex_doc :: "string \<Rightarrow> docinfo" where
  "ex_doc a = \<lparr> doc_id = jsstr a, doc_name = jsstr a \<rparr>"

definition ex_sim :: "string \<Rightarrow> string \<Rightarrow> rat \<Rightarrow> SimilarityResult" where
  "ex_sim a b s = \<lparr> doc1Id = jsstr a, doc2Id = jsstr b, doc1Name = jsstr a, doc2Name = jsstr b,
     similarity = s, matchedSections = [], rawMatchCount = 0, avgWords = 1,
     matchMetric = s, compositeScore = 0 \<rparr>"

definition ex_docs :: "docinfo list" where
  "ex_docs = [ex_doc ''a'', ex_doc ''b'', ex_doc ''c'', ex_doc ''d'']"

definition ex_sims :: "SimilarityResult list" where
  "ex_sims = [ex_sim ''a'' ''b'' 90, ex_sim ''c'' ''d'' 90, ex_sim ''b'' ''c'' 40]"

text \<open>
  The value of a string as a number in base 256, without reduction: \<open>rabinKarpHash\<close> is
  its remainder modulo the prime.
\<close>

definition polyval :: "jsstring \<Rightarrow> nat" where
  "polyval xs = fold (\<lambda>c acc. acc * 256 + unat c) xs 0"

section \<open>Basic facts about the JavaScript operations\<close>

lemma jsstr_simps: "jsstr [] = []" "jsstr (c # cs) = of_nat (of_char c) # jsstr cs"
  by (simp_all add: jsstr_def)

lemma fold_push_map: "fold (\<lambda>i acc. acc @ [f i]) xs acc = acc @ map f xs"
  by (induction xs arbitrary: acc) simp_all

lemma slice_take_drop: "slice xs i (i + k) = take k (drop i xs)"
  by (cases "i \<le> length xs") (simp_all add: slice_def Let_def min_def)

lemma substring_take_drop: "substring s i (i + m) = take m (drop i s)"
  by (cases "i \<le> length s") (simp_all add: substring_def Let_def min_def max_def)

lemma substring_0: "substring s 0 m = take m s"
  using substring_take_drop [of s 0 m] by simp

section \<open>Splitting into words and shingles\<close>

lemma split_ws_not_Nil: "split_ws s \<noteq> []"
  by (subst split_ws.simps) simp

lemma split_ws_Nil: "split_ws [] = [[]]"
  by (subst split_ws.simps) simp

text \<open>A text that neither starts nor ends with white space has no empty piece.\<close>

lemma split_ws_no_empty:
  "s \<noteq> [] \<Longrightarrow> \<not> isSpace (hd s) \<Longrightarrow> \<not> isSpace (last s) \<Longrightarrow> [] \<notin> set (split_ws s)"
proof (induction s rule: split_ws.induct)
  case (1 s)
  let ?w = "takeWhile (\<lambda>c. \<not> isSpace c) s"
  let ?rest = "dropWhile (\<lambda>c. \<not> isSpace c) s"
  let ?s' = "dropWhile isSpace ?rest"
  from "1.prems" have w: "?w \<noteq> []"
    by (cases s) auto
  show ?case
  proof (cases "?rest = []")
    case True
    with w show ?thesis by (subst split_ws.simps) simp
  next
    case False
    have s: "s = ?w @ ?rest" by simp
    from False have "last s = last ?rest"
      by (metis s last_appendR)
    with "1.prems" have lr: "\<not> isSpace (last ?rest)" by simp
    have ne: "?s' \<noteq> []"
    proof
      assume "?s' = []"
      then have "\<forall>c\<in>set ?rest. isSpace c"
        by (rule dropWhile_eq_Nil_conv [THEN iffD1])
      with False lr show False using last_in_set by blast
    qed
    then have hd: "\<not> isSpace (hd ?s')"
      using hd_dropWhile [of isSpace ?rest] by blast
    have "?rest = takeWhile isSpace ?rest @ ?s'" by simp
    with ne have "last ?rest = last ?s'" by (metis last_appendR)
    with lr have "\<not> isSpace (last ?s')" by simp
    with "1.IH" False ne hd have "[] \<notin> set (split_ws ?s')" by blast
    with w False show ?thesis by (subst split_ws.simps) simp
  qed
qed

lemma split_ws_wordCount:
  assumes "s \<noteq> []" "\<not> isSpace (hd s)" "\<not> isSpace (last s)"
  shows "length (split_ws s) = wordCount s"
proof -
  from assms have "[] \<notin> set (split_ws s)" by (rule split_ws_no_empty)
  then have "filter (\<lambda>w. w \<noteq> []) (split_ws s) = split_ws s"
    by (auto simp: filter_id_conv)
  then show ?thesis by (simp add: wordCount_def)
qed

lemma createShingles_eq:
  "createShingles text k =
     map (\<lambda>i. join [32] (take k (drop i (split_ws text))))
       [0 ..< Suc (length (split_ws text)) - k]"
  by (simp add: createShingles_def Let_def fold_push_map slice_take_drop)

lemma length_createShingles:
  "length (createShingles text k) = Suc (length (split_ws text)) - k"
  by (simp add: createShingles_eq del: upt_Suc)

lemma split_ws_a_b: "split_ws (jsstr ''a b'') = [jsstr ''a'', jsstr ''b'']"
  by code_simp

text \<open>
  What the loop of \<open>createShingles\<close> computes, for every text and every \<open>k \<ge> 1\<close>: it
  returns \<open>max(0, n - k + 1)\<close> shingles, where \<open>n\<close> is the number of pieces of
  \<open>text.split(/\s+/)\<close>, empty pieces included; the \<open>i\<close>-th shingle is the pieces
  \<open>i, ..., i + k - 1\<close> joined by a single space; the result is empty exactly when
  \<open>n < k\<close>. On a text that is not empty and neither starts nor ends with white space no
  piece is empty and \<open>n\<close> is the number of words.
\<close>

lemma createShingles_windows:
  "1 \<le> k \<Longrightarrow>
   length (createShingles text k) = Suc (length (split_ws text)) - k
   \<and> (\<forall>i < length (createShingles text k).
         createShingles text k ! i = join [32] (take k (drop i (split_ws text)))
         \<and> length (take k (drop i (split_ws text))) = k)
   \<and> (createShingles text k = [] \<longleftrightarrow> length (split_ws text) < k)
   \<and> (text \<noteq> [] \<and> \<not> isSpace (hd text) \<and> \<not> isSpace (last text)
        \<longrightarrow> length (split_ws text) = wordCount text)"
proof (intro conjI)
  assume k: "1 \<le> k"
  show "length (createShingles text k) = Suc (length (split_ws text)) - k"
    by (rule length_createShingles)
  show "\<forall>i < length (createShingles text k).
           createShingles text k ! i = join [32] (take k (drop i (split_ws text)))
           \<and> length (take k (drop i (split_ws text))) = k"
  proof (intro allI impI)
    fix i assume "i < length (createShingles text k)"
    then have i: "i < Suc (length (split_ws text)) - k"
      by (simp add: length_createShingles)
    then have "createShingles text k ! i = join [32] (take k (drop i (split_ws text)))"
      unfolding createShingles_eq by (simp del: upt_Suc)
    moreover from i have "length (take k (drop i (split_ws text))) = k"
      by simp
    ultimately show "createShingles text k ! i = join [32] (take k (drop i (split_ws text)))
           \<and> length (take k (drop i (split_ws text))) = k" by simp
  qed
  have "createShingles text k = [] \<longleftrightarrow> length (createShingles text k) = 0"
    by simp
  also have "\<dots> \<longleftrightarrow> length (split_ws text) < k"
    using k unfolding length_createShingles by arith
  finally show "createShingles text k = [] \<longleftrightarrow> length (split_ws text) < k" .
  show "text \<noteq> [] \<and> \<not> isSpace (hd text) \<and> \<not> isSpace (last text)
           \<longrightarrow> length (split_ws text) = wordCount text"
    using split_ws_wordCount by blast
qed

lemma createShingles_windows_a_b:
  "1 \<le> (2::nat) \<and> 0 < length (createShingles (jsstr ''a b'') 2)
   \<and> jsstr ''a b'' \<noteq> [] \<and> \<not> isSpace (hd (jsstr ''a b'')) \<and> \<not> isSpace (last (jsstr ''a b''))
   \<and> length (createShingles (jsstr ''a b'') 2) = 1
   \<and> createShingles (jsstr ''a b'') 2 ! 0 = jsstr ''a b''
   \<and> wordCount (jsstr ''a b'') = 2"
proof -
  have sp: "\<not> isSpace (hd (jsstr ''a b''))" "\<not> isSpace (last (jsstr ''a b''))"
    by (simp_all add: jsstr_simps isSpace_def)
  have ne: "jsstr ''a b'' \<noteq> []" by (simp add: jsstr_simps)
  have j: "join [32] [jsstr ''a'', jsstr ''b''] = jsstr ''a b''"
    by (simp add: jsstr_simps)
  from createShingles_windows [of 2 "jsstr ''a b''"] sp ne j show ?thesis
    by (simp add: split_ws_a_b)
qed

lemma split_ws_the_cat_sat:
  "split_ws (jsstr ''the cat sat '') = [jsstr ''the'', jsstr ''cat'', jsstr ''sat'', []]"
  by code_simp

lemma wordCount_the_cat_sat: "wordCount (jsstr ''the cat sat '') = 3"
  unfolding wordCount_def split_ws_the_cat_sat by (simp add: jsstr_simps)

lemma createShingles_the_cat_sat:
  "createShingles (jsstr ''the cat sat '') 3 = [jsstr ''the cat sat'', jsstr ''cat sat '']"
  unfolding createShingles_eq split_ws_the_cat_sat by (simp add: jsstr_simps upt_rec)

text \<open>
  C4 says that \<open>createShingles(text, k)\<close> returns \<open>max(0, wordCount(text) - k + 1)\<close>
  shingles, each of \<open>k\<close> consecutive words, and the empty sequence for a text of fewer
  than \<open>k\<close> words, the empty text included. The function is documented as making
  \<open>k\<close>-word chunks, but it takes the empty pieces of \<open>text.split(/\s+/)\<close> for words, which
  the word count of \<open>computeAllSimilarities\<close> removes with \<open>filter(Boolean)\<close>. So
  \<open>createShingles('', 1)\<close> is \<open>['']\<close>, one shingle for a text without any word, and
  \<open>createShingles('the cat sat ', 3)\<close> is \<open>['the cat sat', 'cat sat ']\<close>, two shingles for
  a text of three words, the second one made of two words and the empty piece after the
  last space.
\<close>

theorem createShingles_keeps_empty_pieces:
  "wordCount [] = 0 \<and> createShingles [] 1 = [[]]
   \<and> wordCount (jsstr ''the cat sat '') = 3
   \<and> createShingles (jsstr ''the cat sat '') 3 = [jsstr ''the cat sat'', jsstr ''cat sat '']"
proof -
  have "wordCount [] = 0" by (simp add: wordCount_def split_ws_Nil)
  moreover have "createShingles [] 1 = [[]]" by (simp add: createShingles_eq split_ws_Nil)
  ultimately show ?thesis
    by (simp only: wordCount_the_cat_sat createShingles_the_cat_sat simp_thms)
qed

section \<open>Rolling-hash search\<close>

text \<open>Whatever the hashes are, an offset is recorded only after the substring test.\<close>

lemma rk_step_matches:
  "set (fst (rk_step text pattern ph h i st))
     \<subseteq> set (fst st) \<union> {j. j = i \<and> substring text j (j + length pattern) = pattern}"
  by (auto simp: rk_step_def Let_def)

lemma rk_fold_matches:
  "set (fst (fold (rk_step text pattern ph h) js st))
     \<subseteq> set (fst st) \<union> {j \<in> set js. substring text j (j + length pattern) = pattern}"
proof (induction js arbitrary: st)
  case Nil
  show ?case by simp
next
  case (Cons j js)
  have "set (fst (fold (rk_step text pattern ph h) (j # js) st))
      \<subseteq> set (fst (rk_step text pattern ph h j st))
        \<union> {j \<in> set js. substring text j (j + length pattern) = pattern}"
    using Cons.IH [of "rk_step text pattern ph h j st"] by simp
  with rk_step_matches [of "text" pattern ph h j st] show ?case by auto
qed

lemma rabinKarpSearch_aba: "rabinKarpSearch (jsstr ''aba'') (jsstr ''a'') = [0, 2]"
  by code_simp

text \<open>
  C10. Every offset that \<open>rabinKarpSearch(text, pattern)\<close> returns is a true occurrence:
  the substring of the text that starts there and has the length of the pattern is the
  pattern, and it lies inside the text.
\<close>

theorem rabinKarpSearch_sound:
  "i \<in> set (rabinKarpSearch text pattern) \<Longrightarrow>
     substring text i (i + length pattern) = pattern \<and> i + length pattern \<le> length text"
proof -
  assume i: "i \<in> set (rabinKarpSearch text pattern)"
  then have le: "length pattern \<le> length text"
    by (auto simp: rabinKarpSearch_def Let_def split: if_splits)
  with i have "i \<in> set (fst (fold (rk_step text pattern
        (Num (of_nat (rabinKarpHash pattern 101))) (pow256_rem (int (length pattern) - 1)))
        [0 ..< Suc (length text - length pattern)]
        ([], Num (of_nat (rabinKarpHash (substring text 0 (length pattern)) 101)))))"
    by (simp add: rabinKarpSearch_def Let_def del: upt_Suc)
  with rk_fold_matches have "i \<in> {j \<in> set [0 ..< Suc (length text - length pattern)].
      substring text j (j + length pattern) = pattern}"
    by fastforce
  with le show ?thesis by auto
qed

theorem rabinKarpSearch_sound_witness:
  "2 \<in> set (rabinKarpSearch (jsstr ''aba'') (jsstr ''a''))
   \<and> substring (jsstr ''aba'') 2 (2 + length (jsstr ''a'')) = jsstr ''a''
   \<and> 2 + length (jsstr ''a'') \<le> length (jsstr ''aba'')"
proof -
  have "2 \<in> set (rabinKarpSearch (jsstr ''aba'') (jsstr ''a''))"
    by (simp add: rabinKarpSearch_aba)
  then show ?thesis
    using rabinKarpSearch_sound [of 2 "jsstr ''aba''" "jsstr ''a''"] by simp
qed

text \<open>Once the multiplier \<open>h\<close> is \<open>NaN\<close>, so is the rolling hash, and nothing matches.\<close>

lemma js_NaN: "js_mul x NaN = NaN" "js_sub x NaN = NaN" "js_add NaN y = NaN"
  by (cases x; simp)+

lemma rk_step_NaN: "rk_step text pattern ph NaN i (ms, NaN) = (ms, NaN)"
  by (simp add: rk_step_def Let_def js_NaN)

text \<open>
  C3 at a pattern of 129 characters. The pattern \<open>a\<close> repeated 129 times occurs in \<open>a\<close>
  repeated 130 times at the offsets 0 and 1; \<open>rabinKarpSearch\<close> returns the offset 0 only,
  since \<open>Math.pow(256, 128)\<close> is \<open>Infinity\<close> and the rolling hash becomes \<open>NaN\<close>.
\<close>

theorem rabinKarpSearch_long_pattern_misses:
  "rabinKarpSearch (replicate 130 97) (replicate 129 97) = [0]
   \<and> substring (replicate 130 (97::jschar)) 1 (1 + length (replicate 129 (97::jschar)))
       = replicate 129 97"
proof -
  have up: "[0 ..< Suc (130 - 129)] = [0, Suc 0]" by (simp add: upt_rec)
  have h: "pow256_rem (int 129 - 1) = NaN" by (simp add: pow256_rem_def)
  have s0: "substring (replicate 130 (97::jschar)) 0 129 = replicate 129 97"
    by (simp add: substring_0)
  have st0: "rk_step (replicate 130 97) (replicate 129 97)
        (Num (of_nat (rabinKarpHash (replicate 129 97) 101))) NaN 0
        ([], Num (of_nat (rabinKarpHash (replicate 129 97) 101))) = ([0], NaN)"
    using s0 by (simp add: rk_step_def Let_def js_NaN)
  have "rabinKarpSearch (replicate 130 97) (replicate 129 97) = [0]"
    unfolding rabinKarpSearch_def Let_def length_replicate up h s0
    by (simp add: st0 rk_step_NaN)
  moreover have "substring (replicate 130 (97::jschar)) 1 (1 + length (replicate 129 (97::jschar)))
       = replicate 129 97"
    using substring_take_drop [of "replicate 130 (97::jschar)" 1 129] by simp
  ultimately show ?thesis by simp
qed

section \<open>Edit distance\<close>

lemma fold_upt_inv:
  assumes "a \<le> b" and "P a x"
    and "\<And>i y. a \<le> i \<Longrightarrow> i < b \<Longrightarrow> P i y \<Longrightarrow> P (Suc i) (f i y)"
  shows "P b (fold f [a ..< b] x)"
  using assms(1)
proof (induction b rule: dec_induct)
  case base
  show ?case using assms(2) by simp
next
  case (step k)
  have "fold f [a ..< Suc k] x = f k (fold f [a ..< k] x)"
    using step.hyps(1) by simp
  with step assms(3) show ?case by simp
qed

lemma table_upd2:
  "table dp m n \<Longrightarrow> table (dp[i := (dp ! i)[j := v]]) m n"
proof (cases "i \<le> m")
  case True
  assume "table dp m n"
  with True show ?thesis by (simp add: table_def nth_list_update)
next
  case False
  assume "table dp m n"
  with False show ?thesis by (simp add: table_def)
qed

lemma nth_upd2:
  "table dp m n \<Longrightarrow> i \<le> m \<Longrightarrow> j \<le> n \<Longrightarrow> i' \<le> m \<Longrightarrow>
   dp[i := (dp ! i)[j := v]] ! i' ! j' = (if i' = i \<and> j' = j then v else dp ! i' ! j')"
  by (auto simp: table_def nth_list_update)

lemma table_replicate: "table (replicate (Suc m) (replicate (Suc n) 0)) m n"
  by (simp add: table_def del: replicate_Suc)

lemma nth_replicate2:
  "i \<le> m \<Longrightarrow> j \<le> n \<Longrightarrow> replicate (Suc m) (replicate (Suc n) v) ! i ! j = v"
  by (simp del: replicate_Suc)

lemma ed_init_col:
  "table dp m n \<and> (\<forall>i\<le>m. \<forall>j\<le>n. dp ! i ! j = (if j = 0 \<and> i < k then i else 0))" 
  if "k \<le> Suc m" "dp = fold (\<lambda>i dp. dp[i := (dp ! i)[0 := i]]) [0 ..< k] (replicate (Suc m) (replicate (Suc n) 0))"
  unfolding that(2) using that(1)
proof (induction k)
  case 0
  show ?case by (simp add: table_replicate nth_replicate2 del: replicate_Suc)
next
  case (Suc k)
  let ?dp = "fold (\<lambda>i dp. dp[i := (dp ! i)[0 := i]]) [0 ..< k] (replicate (Suc m) (replicate (Suc n) 0))"
  from Suc have IH: "table ?dp m n" "\<forall>i\<le>m. \<forall>j\<le>n. ?dp ! i ! j = (if j = 0 \<and> i < k then i else 0)"
    by simp_all
  have k: "k \<le> m" using Suc.prems by simp
  show ?case
    using IH k by (auto simp: table_upd2 nth_upd2)
qed

lemma ed_init_table:
  "table (ed_init m n) m n \<and>
   (\<forall>i\<le>m. \<forall>j\<le>n. ed_init m n ! i ! j = (if j = 0 then i else if i = 0 then j else 0))"
proof -
  let ?dp1 = "fold (\<lambda>i dp. dp[i := (dp ! i)[0 := i]]) [0 ..< Suc m] (replicate (Suc m) (replicate (Suc n) 0))"
  have 1: "table ?dp1 m n" "\<forall>i\<le>m. \<forall>j\<le>n. ?dp1 ! i ! j = (if j = 0 then i else 0)"
    using ed_init_col [of "Suc m" m ?dp1 n] by (simp_all del: upt_Suc)
  have "table (fold (\<lambda>j dp. dp[0 := (dp ! 0)[j := j]]) [0 ..< k] ?dp1) m n \<and>
     (\<forall>i\<le>m. \<forall>j\<le>n. fold (\<lambda>j dp. dp[0 := (dp ! 0)[j := j]]) [0 ..< k] ?dp1 ! i ! j
        = (if j = 0 then i else if i = 0 \<and> j < k then j else 0))" if "k \<le> Suc n" for k
    using that
  proof (induction k)
    case 0
    show ?case using 1 by simp
  next
    case (Suc k)
    let ?dp = "fold (\<lambda>j dp. dp[0 := (dp ! 0)[j := j]]) [0 ..< k] ?dp1"
    from Suc have IH: "table ?dp m n"
      "\<forall>i\<le>m. \<forall>j\<le>n. ?dp ! i ! j = (if j = 0 then i else if i = 0 \<and> j < k then j else 0)"
      by simp_all
    have k: "k \<le> n" using Suc.prems by simp
    show ?case
      using IH k by (auto simp: table_upd2 nth_upd2)
  qed
  from this [of "Suc n"] show ?thesis
    by (auto simp: ed_init_def Let_def simp del: upt_Suc)
qed


lemma levenshtein_Nil2: "levenshtein xs [] = length xs"
  by (cases xs) simp_all

lemma edD_0: "j \<le> length s2 \<Longrightarrow> edD s1 s2 0 j = j" "i \<le> length s1 \<Longrightarrow> edD s1 s2 i 0 = i"
  by (simp_all add: edD_def levenshtein_Nil2)

lemma edD_Suc:
  "i < length s1 \<Longrightarrow> j < length s2 \<Longrightarrow>
   edD s1 s2 (Suc i) (Suc j) =
     (if s1 ! i = s2 ! j then edD s1 s2 i j
      else 1 + min (edD s1 s2 i (Suc j)) (min (edD s1 s2 (Suc i) j) (edD s1 s2 i j)))"
  by (simp add: edD_def take_Suc_conv_app_nth)

lemma ed_inv_init: "ed_inv s1 s2 1 1 (ed_init (length s1) (length s2))"
  using ed_init_table [of "length s1" "length s2"]
  by (auto simp: ed_inv_def edD_0)

lemma ed_cell_inv:
  assumes inv: "ed_inv s1 s2 i j dp" and i: "1 \<le> i" "i \<le> length s1" and j: "1 \<le> j" "j \<le> length s2"
  shows "ed_inv s1 s2 i (Suc j) (ed_cell s1 s2 i j dp)"
proof -
  obtain i0 j0 where ij: "i = Suc i0" "j = Suc j0"
    using i j by (metis One_nat_def Suc_le_D)
  from inv have tab: "table dp (length s1) (length s2)"
    and dn: "\<And>i' j'. i' \<le> length s1 \<Longrightarrow> j' \<le> length s2 \<Longrightarrow>
        i' = 0 \<or> j' = 0 \<or> i' < i \<or> (i' = i \<and> j' < j) \<Longrightarrow> dp ! i' ! j' = edD s1 s2 i' j'"
    by (auto simp: ed_inv_def)
  have a: "dp ! i0 ! j = edD s1 s2 i0 j" using dn [of i0 j] i j ij by simp
  have b: "dp ! i ! j0 = edD s1 s2 i j0" using dn [of i j0] i j ij by simp
  have c: "dp ! i0 ! j0 = edD s1 s2 i0 j0" using dn [of i0 j0] i j ij by simp
  let ?v = "edD s1 s2 i j"
  have cell: "ed_cell s1 s2 i j dp = dp[i := (dp ! i)[j := ?v]]"
    using a b c i j ij edD_Suc [of i0 s1 j0 s2] by (simp add: ed_cell_def)
  show ?thesis
    unfolding ed_inv_def cell
  proof (intro conjI allI impI)
    show "table (dp[i := (dp ! i)[j := ?v]]) (length s1) (length s2)"
      using tab by (rule table_upd2)
  next
    fix i' j'
    assume b: "i' \<le> length s1" "j' \<le> length s2"
      and d: "i' = 0 \<or> j' = 0 \<or> i' < i \<or> i' = i \<and> j' < Suc j"
    show "dp[i := (dp ! i)[j := ?v]] ! i' ! j' = edD s1 s2 i' j'"
    proof (cases "i' = i \<and> j' = j")
      case True
      then show ?thesis using nth_upd2 [OF tab i(2) j(2) b(1)] by simp
    next
      case False
      with d have "i' = 0 \<or> j' = 0 \<or> i' < i \<or> (i' = i \<and> j' < j)" by auto
      with dn b have "dp ! i' ! j' = edD s1 s2 i' j'" by blast
      with False show ?thesis using nth_upd2 [OF tab i(2) j(2) b(1)] by simp
    qed
  qed
qed

lemma ed_inv_next_row:
  assumes "ed_inv s1 s2 i (Suc (length s2)) dp"
  shows "ed_inv s1 s2 (Suc i) 1 dp"
  unfolding ed_inv_def
proof (intro conjI allI impI)
  show "table dp (length s1) (length s2)" using assms by (simp add: ed_inv_def)
next
  fix i' j'
  assume "i' \<le> length s1" "j' \<le> length s2"
    and "i' = 0 \<or> j' = 0 \<or> i' < Suc i \<or> i' = Suc i \<and> j' < 1"
  moreover from this have "i' = 0 \<or> j' = 0 \<or> i' < i \<or> (i' = i \<and> j' < Suc (length s2))"
    by auto
  ultimately show "dp ! i' ! j' = edD s1 s2 i' j'"
    using assms unfolding ed_inv_def by blast
qed

lemma ed_row_inv:
  assumes inv: "ed_inv s1 s2 i 1 dp" and i: "1 \<le> i" "i \<le> length s1"
  shows "ed_inv s1 s2 (Suc i) 1 (fold (ed_cell s1 s2 i) [1 ..< Suc (length s2)] dp)"
proof -
  have "ed_inv s1 s2 i (Suc (length s2)) (fold (ed_cell s1 s2 i) [1 ..< Suc (length s2)] dp)"
  proof (rule fold_upt_inv [where P = "\<lambda>j dp. ed_inv s1 s2 i j dp"])
    show "1 \<le> Suc (length s2)" by simp
    show "ed_inv s1 s2 i 1 dp" by (rule inv)
    fix j y assume "1 \<le> j" "j < Suc (length s2)" "ed_inv s1 s2 i j y"
    then show "ed_inv s1 s2 i (Suc j) (ed_cell s1 s2 i j y)"
      using i by (intro ed_cell_inv) simp_all
  qed
  then show ?thesis by (rule ed_inv_next_row)
qed

lemma editDistance_levenshtein:
  "editDistance s1 s2 = levenshtein (rev s1) (rev s2)"
proof -
  let ?dp = "fold (\<lambda>i dp. fold (ed_cell s1 s2 i) [1 ..< Suc (length s2)] dp)
               [1 ..< Suc (length s1)] (ed_init (length s1) (length s2))"
  have "ed_inv s1 s2 (Suc (length s1)) 1 ?dp"
  proof (rule fold_upt_inv [where P = "\<lambda>i dp. ed_inv s1 s2 i 1 dp"])
    show "1 \<le> Suc (length s1)" by simp
    show "ed_inv s1 s2 1 1 (ed_init (length s1) (length s2))" by (rule ed_inv_init)
    fix i y assume "1 \<le> i" "i < Suc (length s1)" "ed_inv s1 s2 i 1 y"
    then show "ed_inv s1 s2 (Suc i) 1 (fold (ed_cell s1 s2 i) [1 ..< Suc (length s2)] y)"
      by (intro ed_row_inv) simp_all
  qed
  then have "?dp ! length s1 ! length s2 = edD s1 s2 (length s1) (length s2)"
    by (simp add: ed_inv_def)
  then show ?thesis
    by (simp add: editDistance_def Let_def edD_def del: upt_Suc)
qed

lemma levenshtein_refl: "levenshtein xs xs = 0"
  by (induction xs) simp_all

lemma levenshtein_sym: "levenshtein xs ys = levenshtein ys xs"
  by (induction xs ys rule: levenshtein.induct) (simp_all add: levenshtein_Nil2 min.commute min.left_commute)

lemma levenshtein_ins_del:
  "levenshtein xs (y # ys) \<le> Suc (levenshtein xs ys) \<and>
   levenshtein xs ys \<le> Suc (levenshtein (x # xs) ys)"
proof (induction "length xs + length ys" arbitrary: xs ys x y rule: less_induct)
  case less
  have A: "levenshtein xs (y # ys) \<le> Suc (levenshtein xs ys)"
  proof (cases xs)
    case Nil
    then show ?thesis by simp
  next
    case (Cons x' xs')
    show ?thesis
    proof (cases "x' = y")
      case True
      have "levenshtein xs' ys \<le> Suc (levenshtein (x' # xs') ys)"
        using less [of xs' ys] Cons by simp
      with True Cons show ?thesis by simp
    next
      case False
      with Cons show ?thesis by simp
    qed
  qed
  have B: "levenshtein xs ys \<le> Suc (levenshtein (x # xs) ys)"
  proof (cases ys)
    case Nil
    then show ?thesis by (simp add: levenshtein_Nil2)
  next
    case (Cons y' ys')
    have a: "levenshtein xs (y' # ys') \<le> Suc (levenshtein xs ys')"
      using less [of xs ys'] Cons by simp
    have b: "levenshtein xs ys' \<le> Suc (levenshtein (x # xs) ys')"
      using less [of xs ys'] Cons by simp
    show ?thesis
    proof (cases "x = y'")
      case True
      with a Cons show ?thesis by simp
    next
      case False
      with a b Cons show ?thesis by (simp add: min_def)
    qed
  qed
  from A B show ?case ..
qed

lemma levenshtein_Cons2: "levenshtein xs (y # ys) \<le> Suc (levenshtein xs ys)"
  by (rule levenshtein_ins_del [THEN conjunct1])

lemma levenshtein_Cons1: "levenshtein (x # xs) ys \<le> Suc (levenshtein xs ys)"
  using levenshtein_Cons2 [of ys x xs] by (simp add: levenshtein_sym)

lemma levenshtein_unCons1: "levenshtein xs ys \<le> Suc (levenshtein (x # xs) ys)"
  by (rule levenshtein_ins_del [THEN conjunct2])

lemma levenshtein_unCons2: "levenshtein xs ys \<le> Suc (levenshtein xs (y # ys))"
  using levenshtein_unCons1 [of ys xs y] by (simp add: levenshtein_sym)

lemma levenshtein_Cons_Cons:
  "levenshtein (x # xs) (y # ys) =
     min (Suc (levenshtein xs (y # ys)))
       (min (Suc (levenshtein (x # xs) ys)) ((if x = y then 0 else 1) + levenshtein xs ys))"
proof (cases "x = y")
  case True
  have "levenshtein xs ys \<le> Suc (levenshtein (y # xs) ys)"
    "levenshtein xs ys \<le> Suc (levenshtein xs (y # ys))"
    by (rule levenshtein_unCons1, rule levenshtein_unCons2)
  with True show ?thesis by (simp add: min_def)
next
  case False
  then show ?thesis by simp
qed

lemma levenshtein_length_le: "length ys \<le> length xs + levenshtein xs ys"
  by (induction xs ys rule: levenshtein.induct) (auto simp: min_def)

lemma levenshtein_le_length: "levenshtein xs ys \<le> length xs + length ys"
  by (induction xs ys rule: levenshtein.induct) (auto simp: min_def)

lemma levenshtein_triangle:
  "levenshtein a c \<le> levenshtein a b + levenshtein b c"
proof (induction "length a + length b + length c" arbitrary: a b c rule: less_induct)
  case less
  show ?case
  proof (cases a)
    case Nil
    then show ?thesis using levenshtein_length_le [of c b] by simp
  next
    case a: (Cons x a')
    show ?thesis
    proof (cases c)
      case Nil
      then show ?thesis
        using levenshtein_length_le [of a b] by (simp add: levenshtein_Nil2 levenshtein_sym)
    next
      case c: (Cons z c')
      show ?thesis
      proof (cases b)
        case Nil
        then show ?thesis
          using levenshtein_le_length [of a c] by (simp add: levenshtein_Nil2)
      next
        case b: (Cons y b')
        let ?d = "\<lambda>u v. if u = v then 0 else (1::nat)"
        have ab: "levenshtein a b = Suc (levenshtein a' b) \<or> levenshtein a b = Suc (levenshtein a b')
            \<or> levenshtein a b = ?d x y + levenshtein a' b'"
          unfolding a b levenshtein_Cons_Cons [of x a' y b'] by (simp add: min_def)
        have bc: "levenshtein b c = Suc (levenshtein b' c) \<or> levenshtein b c = Suc (levenshtein b c')
            \<or> levenshtein b c = ?d y z + levenshtein b' c'"
          unfolding b c levenshtein_Cons_Cons [of y b' z c'] by (simp add: min_def)
        have ac1: "levenshtein a c \<le> Suc (levenshtein a' c)"
          unfolding a by (rule levenshtein_Cons1)
        have ac2: "levenshtein a c \<le> Suc (levenshtein a c')"
          unfolding c by (rule levenshtein_Cons2)
        have ac3: "levenshtein a c \<le> ?d x z + levenshtein a' c'"
          unfolding a c levenshtein_Cons_Cons [of x a' z c'] by simp
        have ih1: "levenshtein a' c \<le> levenshtein a' b + levenshtein b c"
          using less [of a' b c] a by simp
        have ih2: "levenshtein a c' \<le> levenshtein a b + levenshtein b c'"
          using less [of a b c'] c by simp
        have ih3: "levenshtein a c \<le> levenshtein a b' + levenshtein b' c"
          using less [of a b' c] b by simp
        have ih4: "levenshtein a c' \<le> levenshtein a b' + levenshtein b' c'"
          using less [of a b' c'] b c by simp
        have ih5: "levenshtein a' c \<le> levenshtein a' b' + levenshtein b' c"
          using less [of a' b' c] a b by simp
        have ih6: "levenshtein a' c' \<le> levenshtein a' b' + levenshtein b' c'"
          using less [of a' b' c'] a b c by simp
        have d: "?d x z \<le> ?d x y + ?d y z" by simp
        from ab show ?thesis
        proof (elim disjE)
          assume "levenshtein a b = Suc (levenshtein a' b)"
          with ac1 ih1 show ?thesis by linarith
        next
          assume 2: "levenshtein a b = Suc (levenshtein a b')"
          from bc show ?thesis
          proof (elim disjE)
            assume "levenshtein b c = Suc (levenshtein b' c)"
            with 2 ih3 show ?thesis by linarith
          next
            assume "levenshtein b c = Suc (levenshtein b c')"
            with ac2 ih2 show ?thesis by linarith
          next
            assume "levenshtein b c = ?d y z + levenshtein b' c'"
            with 2 ac2 ih4 show ?thesis by linarith
          qed
        next
          assume 3: "levenshtein a b = ?d x y + levenshtein a' b'"
          from bc show ?thesis
          proof (elim disjE)
            assume "levenshtein b c = Suc (levenshtein b' c)"
            with 3 ac1 ih5 show ?thesis by linarith
          next
            assume "levenshtein b c = Suc (levenshtein b c')"
            with ac2 ih2 show ?thesis by linarith
          next
            assume "levenshtein b c = ?d y z + levenshtein b' c'"
            with 3 ac3 ih6 d show ?thesis by linarith
          qed
        qed
      qed
    qed
  qed
qed

text \<open>
  C9. \<open>editDistance\<close> satisfies the laws of the Levenshtein metric: the distance from a
  string to itself is 0, the distance from the empty string to \<open>s\<close> is the length of
  \<open>s\<close>, and the triangle inequality holds for all strings \<open>a\<close>, \<open>b\<close>, \<open>c\<close>.
\<close>

theorem editDistance_metric:
  "editDistance s s = 0 \<and> editDistance [] s = length s
   \<and> editDistance a c \<le> editDistance a b + editDistance b c"
  by (simp add: editDistance_levenshtein levenshtein_refl levenshtein_triangle)

lemma editDistance_sym: "editDistance a b = editDistance b a"
  by (simp add: editDistance_levenshtein levenshtein_sym)

section \<open>Longest common substring\<close>

lemma cpl_Nil2 [simp]: "cpl xs [] = 0"
  by (cases xs) simp_all

lemma cpl_le: "cpl xs ys \<le> length xs" "cpl xs ys \<le> length ys"
  by (induction xs ys rule: cpl.induct) simp_all

lemma cpl_take: "take (cpl xs ys) xs = take (cpl xs ys) ys"
  by (induction xs ys rule: cpl.induct) simp_all

lemma cpl_append: "cpl (zs @ xs) (zs @ ys) = length zs + cpl xs ys"
  by (induction zs) simp_all

lemma cpl_append_ge: "length zs \<le> cpl (zs @ xs) (zs @ ys)"
  by (simp add: cpl_append)

lemma lcsL_0: "lcsL s1 s2 0 j = 0" "lcsL s1 s2 i 0 = 0"
  by (simp_all add: lcsL_def)

lemma lcsL_Suc:
  "i < length s1 \<Longrightarrow> j < length s2 \<Longrightarrow>
   lcsL s1 s2 (Suc i) (Suc j) = (if s1 ! i = s2 ! j then Suc (lcsL s1 s2 i j) else 0)"
  by (simp add: lcsL_def take_Suc_conv_app_nth)

lemma lcs_inv_init:
  "lcs_inv s1 s2 1 1 (replicate (length s1 + 1) (replicate (length s2 + 1) 0), 0, 0)"
  unfolding lcs_inv_def prod.case
proof (intro conjI allI impI)
  show "table (replicate (length s1 + 1) (replicate (length s2 + 1) 0)) (length s1) (length s2)"
    using table_replicate [of "length s1" "length s2"] by simp
  show "\<exists>j'\<le>length s2. lcsL s1 s2 0 j' = 0" by (auto simp: lcsL_0)
  show "0 \<le> length s1" by simp
next
  fix i' j' assume "i' \<le> length s1" "j' \<le> length s2"
  then have "replicate (length s1 + 1) (replicate (length s2 + 1) (0::nat)) ! i' ! j' = 0"
    using nth_replicate2 [of i' "length s1" j' "length s2" "0::nat"] by simp
  moreover have "i' < 1 \<or> (i' = 1 \<and> j' < 1) \<Longrightarrow> lcsL s1 s2 i' j' = 0"
    by (auto simp: lcsL_0)
  ultimately show "replicate (length s1 + 1) (replicate (length s2 + 1) 0) ! i' ! j' =
       (if i' < 1 \<or> i' = 1 \<and> j' < 1 then lcsL s1 s2 i' j' else 0)"
    by simp
next
  fix i' j' :: nat assume "i' \<le> length s1" "j' \<le> length s2" "i' < 1 \<or> i' = 1 \<and> j' < 1"
  then show "lcsL s1 s2 i' j' \<le> 0" by (auto simp: lcsL_0)
qed

lemma lcs_cell_inv:
  assumes inv: "lcs_inv s1 s2 i j st" and i: "1 \<le> i" "i \<le> length s1" and j: "1 \<le> j" "j \<le> length s2"
  shows "lcs_inv s1 s2 i (Suc j) (lcs_cell s1 s2 i j st)"
proof -
  obtain dp mx e where st: "st = (dp, mx, e)" by (cases st) auto
  obtain i0 j0 where ij: "i = Suc i0" "j = Suc j0"
    using i j by (metis One_nat_def Suc_le_D)
  from inv have tab: "table dp (length s1) (length s2)"
    and cells: "\<And>i' j'. i' \<le> length s1 \<Longrightarrow> j' \<le> length s2 \<Longrightarrow>
        dp ! i' ! j' = (if i' < i \<or> (i' = i \<and> j' < j) then lcsL s1 s2 i' j' else 0)"
    and mx: "\<And>i' j'. i' \<le> length s1 \<Longrightarrow> j' \<le> length s2 \<Longrightarrow>
        i' < i \<or> (i' = i \<and> j' < j) \<Longrightarrow> lcsL s1 s2 i' j' \<le> mx"
    and e: "e \<le> length s1" "\<exists>j'\<le>length s2. lcsL s1 s2 e j' = mx"
    by (auto simp: lcs_inv_def st)
  have prev: "dp ! i0 ! j0 = lcsL s1 s2 i0 j0"
    using cells [of i0 j0] i j ij by simp
  have L: "lcsL s1 s2 i j = (if s1 ! i0 = s2 ! j0 then Suc (lcsL s1 s2 i0 j0) else 0)"
    using lcsL_Suc [of i0 s1 j0 s2] i j ij by simp
  show ?thesis
  proof (cases "s1 ! i0 = s2 ! j0")
    case False
    then have cell: "lcs_cell s1 s2 i j st = (dp, mx, e)"
      by (simp add: lcs_cell_def st ij)
    from False L have L0: "lcsL s1 s2 i j = 0" by simp
    show ?thesis
      unfolding cell lcs_inv_def prod.case
    proof (intro conjI allI impI)
      show "table dp (length s1) (length s2)" by (rule tab)
      show "e \<le> length s1" "\<exists>j'\<le>length s2. lcsL s1 s2 e j' = mx" by (rule e)+
    next
      fix i' j' assume b: "i' \<le> length s1" "j' \<le> length s2"
      show "dp ! i' ! j' = (if i' < i \<or> i' = i \<and> j' < Suc j then lcsL s1 s2 i' j' else 0)"
        using cells [OF b] L0 by (auto simp: less_Suc_eq)
    next
      fix i' j' assume b: "i' \<le> length s1" "j' \<le> length s2"
        and d: "i' < i \<or> i' = i \<and> j' < Suc j"
      show "lcsL s1 s2 i' j' \<le> mx"
      proof (cases "i' = i \<and> j' = j")
        case True
        with L0 show ?thesis by simp
      next
        case False
        with d have "i' < i \<or> (i' = i \<and> j' < j)" by auto
        with mx b show ?thesis by blast
      qed
    qed
  next
    case True
    let ?v = "lcsL s1 s2 i j"
    from True L prev have v: "dp ! i0 ! j0 + 1 = ?v" by simp
    let ?dp = "dp[i := (dp ! i)[j := ?v]]"
    have cell: "lcs_cell s1 s2 i j st = (if ?v > mx then (?dp, ?v, i) else (?dp, mx, e))"
      using True v by (simp add: lcs_cell_def st ij Let_def)
    have tab': "table ?dp (length s1) (length s2)" using tab by (rule table_upd2)
    have cells': "?dp ! i' ! j' = (if i' < i \<or> i' = i \<and> j' < Suc j then lcsL s1 s2 i' j' else 0)"
      if b: "i' \<le> length s1" "j' \<le> length s2" for i' j'
    proof (cases "i' = i \<and> j' = j")
      case True
      then show ?thesis using nth_upd2 [OF tab i(2) j(2) b(1)] by simp
    next
      case False
      then have "?dp ! i' ! j' = dp ! i' ! j'"
        using nth_upd2 [OF tab i(2) j(2) b(1), of ?v j'] by auto
      with False cells [OF b] show ?thesis by (auto simp: less_Suc_eq)
    qed
    have mx': "lcsL s1 s2 i' j' \<le> max mx ?v"
      if b: "i' \<le> length s1" "j' \<le> length s2" and d: "i' < i \<or> i' = i \<and> j' < Suc j" for i' j'
    proof (cases "i' = i \<and> j' = j")
      case True
      then show ?thesis by simp
    next
      case False
      with d have "i' < i \<or> (i' = i \<and> j' < j)" by auto
      with mx b have "lcsL s1 s2 i' j' \<le> mx" by blast
      then show ?thesis by simp
    qed
    show ?thesis
    proof (cases "?v > mx")
      case True
      then have m: "max mx ?v = ?v" by simp
      show ?thesis
        unfolding cell lcs_inv_def using True tab' cells' mx' i j unfolding m by auto
    next
      case False
      then have m: "max mx ?v = mx" by simp
      show ?thesis
        unfolding cell lcs_inv_def using False tab' cells' mx' e unfolding m by auto
    qed
  qed
qed


lemma lcs_inv_next_row:
  assumes "lcs_inv s1 s2 i (Suc (length s2)) st"
  shows "lcs_inv s1 s2 (Suc i) 1 st"
proof -
  obtain dp mx e where st: "st = (dp, mx, e)" by (cases st) auto
  from assms have tab: "table dp (length s1) (length s2)"
    and cells: "\<And>i' j'. i' \<le> length s1 \<Longrightarrow> j' \<le> length s2 \<Longrightarrow>
        dp ! i' ! j' = (if i' < i \<or> (i' = i \<and> j' < Suc (length s2)) then lcsL s1 s2 i' j' else 0)"
    and mx: "\<And>i' j'. i' \<le> length s1 \<Longrightarrow> j' \<le> length s2 \<Longrightarrow>
        i' < i \<or> (i' = i \<and> j' < Suc (length s2)) \<Longrightarrow> lcsL s1 s2 i' j' \<le> mx"
    and e: "e \<le> length s1" "\<exists>j'\<le>length s2. lcsL s1 s2 e j' = mx"
    by (auto simp: lcs_inv_def st)
  show ?thesis
    unfolding st lcs_inv_def prod.case
  proof (intro conjI allI impI)
    show "table dp (length s1) (length s2)" by (rule tab)
    show "e \<le> length s1" "\<exists>j'\<le>length s2. lcsL s1 s2 e j' = mx" by (rule e)+
  next
    fix i' j' assume b: "i' \<le> length s1" "j' \<le> length s2"
    show "dp ! i' ! j' = (if i' < Suc i \<or> i' = Suc i \<and> j' < 1 then lcsL s1 s2 i' j' else 0)"
      using cells [OF b] b by (auto simp: lcsL_0)
  next
    fix i' j' assume b: "i' \<le> length s1" "j' \<le> length s2"
      and d: "i' < Suc i \<or> i' = Suc i \<and> j' < 1"
    show "lcsL s1 s2 i' j' \<le> mx"
    proof (cases "i' = Suc i")
      case True
      with d show ?thesis by (simp add: lcsL_0)
    next
      case False
      with d b have "i' < i \<or> (i' = i \<and> j' < Suc (length s2))" by auto
      with mx b show ?thesis by blast
    qed
  qed
qed

lemma lcs_row_inv:
  assumes inv: "lcs_inv s1 s2 i 1 st" and i: "1 \<le> i" "i \<le> length s1"
  shows "lcs_inv s1 s2 (Suc i) 1 (fold (lcs_cell s1 s2 i) [1 ..< Suc (length s2)] st)"
proof -
  have "lcs_inv s1 s2 i (Suc (length s2)) (fold (lcs_cell s1 s2 i) [1 ..< Suc (length s2)] st)"
  proof (rule fold_upt_inv [where P = "\<lambda>j st. lcs_inv s1 s2 i j st"])
    show "1 \<le> Suc (length s2)" by simp
    show "lcs_inv s1 s2 i 1 st" by (rule inv)
    fix j y assume "1 \<le> j" "j < Suc (length s2)" "lcs_inv s1 s2 i j y"
    then show "lcs_inv s1 s2 i (Suc j) (lcs_cell s1 s2 i j y)"
      using i by (intro lcs_cell_inv) simp_all
  qed
  then show ?thesis by (rule lcs_inv_next_row)
qed

lemma lcs_table_inv: "lcs_inv s1 s2 (Suc (length s1)) 1 (lcs_table s1 s2)"
  unfolding lcs_table_def Let_def
proof (rule fold_upt_inv [where P = "\<lambda>i st. lcs_inv s1 s2 i 1 st"])
  show "1 \<le> Suc (length s1)" by simp
  show "lcs_inv s1 s2 1 1 (replicate (length s1 + 1) (replicate (length s2 + 1) 0), 0, 0)"
    by (rule lcs_inv_init)
  fix i y assume "1 \<le> i" "i < Suc (length s1)" "lcs_inv s1 s2 i 1 y"
  then show "lcs_inv s1 s2 (Suc i) 1 (fold (lcs_cell s1 s2 i) [1 ..< Suc (length s2)] y)"
    by (intro lcs_row_inv) simp_all
qed

text \<open>What the loops leave in \<open>maxLength\<close> and \<open>endIndex\<close>.\<close>

lemma lcs_table_result:
  obtains dp mx e j where "lcs_table s1 s2 = (dp, mx, e)"
    and "e \<le> length s1" and "j \<le> length s2" and "lcsL s1 s2 e j = mx"
    and "\<And>i' j'. i' \<le> length s1 \<Longrightarrow> j' \<le> length s2 \<Longrightarrow> lcsL s1 s2 i' j' \<le> mx"
proof -
  obtain dp mx e where st: "lcs_table s1 s2 = (dp, mx, e)" by (cases "lcs_table s1 s2") auto
  from lcs_table_inv [of s1 s2] have e: "e \<le> length s1"
    and ex: "\<exists>j'\<le>length s2. lcsL s1 s2 e j' = mx"
    and mx: "\<And>i' j'. i' \<le> length s1 \<Longrightarrow> j' \<le> length s2 \<Longrightarrow> lcsL s1 s2 i' j' \<le> mx"
    unfolding st lcs_inv_def prod.case by (auto simp: less_Suc_eq_le)
  from ex obtain j where "j \<le> length s2" "lcsL s1 s2 e j = mx" by blast
  with st e mx that show thesis by blast
qed

text \<open>A common suffix of two prefixes, cut out of either string.\<close>

lemma lcsL_suffix:
  assumes "i \<le> length s1" "j \<le> length s2"
  shows "take (lcsL s1 s2 i j) (drop (i - lcsL s1 s2 i j) s1)
       = take (lcsL s1 s2 i j) (drop (j - lcsL s1 s2 i j) s2)"
    and "lcsL s1 s2 i j \<le> i" and "lcsL s1 s2 i j \<le> j"
proof -
  let ?k = "lcsL s1 s2 i j"
  show ki: "?k \<le> i" using cpl_le(1) [of "rev (take i s1)" "rev (take j s2)"] assms
    by (simp add: lcsL_def)
  show kj: "?k \<le> j" using cpl_le(2) [of "rev (take i s1)" "rev (take j s2)"] assms
    by (simp add: lcsL_def)
  have "take ?k (rev (take i s1)) = take ?k (rev (take j s2))"
    unfolding lcsL_def by (rule cpl_take)
  then have "rev (drop (i - ?k) (take i s1)) = rev (drop (j - ?k) (take j s2))"
    using assms by (simp add: take_rev)
  then have "drop (i - ?k) (take i s1) = drop (j - ?k) (take j s2)" by simp
  then show "take ?k (drop (i - ?k) s1) = take ?k (drop (j - ?k) s2)"
    using ki kj by (simp add: drop_take)
qed

lemma sublist_take_drop: "sublist (take k (drop p xs)) xs"
proof -
  have "take k (drop p xs) @ drop k (drop p xs) = drop p xs"
    by (rule append_take_drop_id)
  then have "xs = take p xs @ take k (drop p xs) @ drop k (drop p xs)"
    by (simp only: append_take_drop_id)
  then show ?thesis unfolding sublist_def by blast
qed

text \<open>Every common substring ends somewhere in both strings.\<close>

lemma lcsL_sublist:
  assumes "sublist r s1" "sublist r s2"
  shows "\<exists>i\<le>length s1. \<exists>j\<le>length s2. length r \<le> lcsL s1 s2 i j"
proof -
  from assms obtain p1 q1 p2 q2 where s: "s1 = p1 @ r @ q1" "s2 = p2 @ r @ q2"
    unfolding sublist_def by blast
  let ?i = "length p1 + length r" and ?j = "length p2 + length r"
  have "rev (take ?i s1) = rev r @ rev p1" "rev (take ?j s2) = rev r @ rev p2"
    using s by simp_all
  then have "lcsL s1 s2 ?i ?j = length r + cpl (rev p1) (rev p2)"
    unfolding lcsL_def by (simp add: cpl_append)
  moreover have "?i \<le> length s1" "?j \<le> length s2" using s by simp_all
  ultimately show ?thesis by (metis le_add1)
qed

lemma lcs_truncate:
  "(if length s > cap then substring s 0 cap else s) = take cap s"
  by (simp add: substring_0)

lemma longestCommonSubstring_props:
  fixes a b :: "'a list" and cap :: nat
  defines "r \<equiv> longestCommonSubstring a b cap"
  shows "sublist r (take cap a)" and "sublist r (take cap b)"
    and "\<And>r'. sublist r' (take cap a) \<Longrightarrow> sublist r' (take cap b) \<Longrightarrow> length r' \<le> length r"
proof -
  let ?s1 = "take cap a" and ?s2 = "take cap b"
  obtain dp mx e j where st: "lcs_table ?s1 ?s2 = (dp, mx, e)"
    and e: "e \<le> length ?s1" and j: "j \<le> length ?s2" and L: "lcsL ?s1 ?s2 e j = mx"
    and mx: "\<And>i' j'. i' \<le> length ?s1 \<Longrightarrow> j' \<le> length ?s2 \<Longrightarrow> lcsL ?s1 ?s2 i' j' \<le> mx"
    by (rule lcs_table_result [of ?s1 ?s2]) blast
  have me: "mx \<le> e" using lcsL_suffix(2) [OF e j] L by simp
  have r: "r = take mx (drop (e - mx) ?s1)"
    unfolding r_def longestCommonSubstring_def Let_def lcs_truncate st prod.case
    using substring_take_drop [of ?s1 "e - mx" mx] me by simp
  have r2: "r = take mx (drop (j - mx) ?s2)"
    unfolding r using lcsL_suffix(1) [OF e j] L by simp
  show "sublist r ?s1" unfolding r by (rule sublist_take_drop)
  show "sublist r ?s2" unfolding r2 by (rule sublist_take_drop)
  have "mx \<le> length ?s1 - (e - mx)" using e me by arith
  then have "mx \<le> length (drop (e - mx) ?s1)" by (simp only: length_drop)
  then have len: "length r = mx" unfolding r by (simp only: length_take min_absorb2)
  fix r' assume "sublist r' ?s1" "sublist r' ?s2"
  then obtain i' j' where "i' \<le> length ?s1" "j' \<le> length ?s2" "length r' \<le> lcsL ?s1 ?s2 i' j'"
    using lcsL_sublist by blast
  with mx [of i' j'] len show "length r' \<le> length r" by simp
qed

lemma sublist_length_le: "sublist xs ys \<Longrightarrow> length xs \<le> length ys"
  unfolding sublist_def by auto

lemma longestCommonSubstring_length_sym:
  "length (longestCommonSubstring a b cap) = length (longestCommonSubstring b a cap)"
  by (intro antisym longestCommonSubstring_props(3) longestCommonSubstring_props(1,2))

text \<open>
  C8. For all strings \<open>a\<close>, \<open>b\<close> and every cap, \<open>longestCommonSubstring(a, b, cap)\<close> has
  at most \<open>min(len(a), len(b), cap)\<close> characters and is a contiguous substring of both
  inputs truncated to their first \<open>cap\<close> characters; it is empty when the truncated
  inputs share no character.
\<close>

theorem longestCommonSubstring_common:
  "length (longestCommonSubstring a b cap) \<le> min (length a) (min (length b) cap)
   \<and> sublist (longestCommonSubstring a b cap) (take cap a)
   \<and> sublist (longestCommonSubstring a b cap) (take cap b)
   \<and> (set (take cap a) \<inter> set (take cap b) = {} \<longrightarrow> longestCommonSubstring a b cap = [])"
proof -
  let ?r = "longestCommonSubstring a b cap"
  have sa: "sublist ?r (take cap a)" and sb: "sublist ?r (take cap b)"
    by (rule longestCommonSubstring_props)+
  have "length ?r \<le> length (take cap a)" "length ?r \<le> length (take cap b)"
    using sa sb by (simp_all only: sublist_length_le)
  then have len: "length ?r \<le> min (length a) (min (length b) cap)" by simp
  have "?r = []" if disj: "set (take cap a) \<inter> set (take cap b) = {}"
  proof (rule ccontr)
    assume "?r \<noteq> []"
    then obtain x where "x \<in> set ?r" by (cases ?r) auto
    with sa sb have "x \<in> set (take cap a)" "x \<in> set (take cap b)"
      by (auto simp: sublist_def)
    with disj show False by blast
  qed
  with len sa sb show ?thesis by blast
qed

theorem longestCommonSubstring_common_witness:
  "set (take 5 (jsstr ''ab'')) \<inter> set (take 5 (jsstr ''cd'')) = {}
   \<and> longestCommonSubstring (jsstr ''ab'') (jsstr ''cd'') 5 = []"
  using longestCommonSubstring_common [of "jsstr ''ab''" "jsstr ''cd''" 5]
  by (simp add: jsstr_simps)

section \<open>Pairwise similarity: the match metric\<close>

lemma Set_add_fold_set:
  "set (fold (\<lambda>x s. Set_add s x) xs acc) = set acc \<union> set xs"
  by (induction xs arbitrary: acc) (auto simp: Set_add_def)

lemma Set_add_fold_distinct:
  "distinct acc \<Longrightarrow> distinct (fold (\<lambda>x s. Set_add s x) xs acc)"
  by (induction xs arbitrary: acc) (auto simp: Set_add_def)

lemma set_newSet: "set (newSet xs) = set xs"
  by (simp add: newSet_def Set_add_fold_set)

lemma distinct_newSet: "distinct (newSet xs)"
  by (simp add: newSet_def Set_add_fold_distinct)

lemma length_newSet: "length (newSet xs) = card (set xs)"
  using distinct_card [OF distinct_newSet, of xs] by (simp add: set_newSet)

lemma fold_count:
  "fold (\<lambda>x c. if P x then c + 1 else c) xs (c0::nat) = c0 + length (filter P xs)"
  by (induction xs arbitrary: c0) simp_all

lemma commonCount_card:
  "fold (\<lambda>sh c. if sh \<in> set (newSet s2) then c + 1 else c) (newSet s1) (0::nat)
     = card (set s1 \<inter> set s2)"
proof -
  have "distinct (filter (\<lambda>sh. sh \<in> set s2) (newSet s1))"
    by (simp add: distinct_newSet)
  then have "length (filter (\<lambda>sh. sh \<in> set s2) (newSet s1))
      = card (set (filter (\<lambda>sh. sh \<in> set s2) (newSet s1)))"
    by (simp only: distinct_card)
  also have "set (filter (\<lambda>sh. sh \<in> set s2) (newSet s1)) = set s1 \<inter> set s2"
    by (auto simp: set_newSet)
  finally show ?thesis by (simp add: fold_count set_newSet)
qed

lemma jaccardSimilarity_card:
  "jaccardSimilarity s1 s2 =
     (if set s1 \<union> set s2 = {} then 0
      else of_nat (card (set s1 \<inter> set s2)) / of_nat (card (set s1 \<union> set s2)))"
proof -
  have i: "set (filter (\<lambda>x. x \<in> set (newSet s2)) (newSet s1)) = set s1 \<inter> set s2"
    by (auto simp: set_newSet)
  have u: "set (newSet s1 @ newSet s2) = set s1 \<union> set s2"
    by (simp add: set_newSet)
  show ?thesis
    unfolding jaccardSimilarity_def Let_def length_newSet i u
    by simp
qed

lemma jaccardSimilarity_sym: "jaccardSimilarity s1 s2 = jaccardSimilarity s2 s1"
  by (simp add: jaccardSimilarity_card Int_commute Un_commute)

lemma fold_fold_push:
  "fold (\<lambda>i r. fold (\<lambda>j r. r @ [f i j]) (g i) r) is r0
     = r0 @ concat (map (\<lambda>i. map (f i) (g i)) is)"
  by (induction "is" arbitrary: r0) (simp_all add: fold_push_map)

lemma computeAllSimilarities_eq:
  "computeAllSimilarities docs =
     concat (map (\<lambda>i. map (resultOf docs i) [i + 1 ..< length docs]) [0 ..< length docs])"
  unfolding computeAllSimilarities_def Let_def resultOf_def
  by (simp only: fold_fold_push append_Nil)


lemma resultOf_similarity:
  assumes "i < length docs" "j < length docs"
  shows "similarity (resultOf docs i j) =
     of_nat (card (set (createShingles (content (docs ! i)) 3)
                   \<inter> set (createShingles (content (docs ! j)) 3)))
     / of_nat (max 1 ((wordCount (content (docs ! i)) + wordCount (content (docs ! j))) div 2))
     * 100"
  using assms by (simp add: resultOf_def pairResult_def Let_def commonCount_card)









section \<open>Pairwise similarity: the composite score and symmetry\<close>

lemma resultOf_compositeScore:
  "compositeScore (resultOf docs i j) =
     (let c1 = content (docs ! i); c2 = content (docs ! j);
          J = jaccardSimilarity (map (\<lambda>d. createShingles (content d) 3) docs ! i)
                (map (\<lambda>d. createShingles (content d) 3) docs ! j)
      in (if J > 15 / 100
          then J * (5 / 10)
               + (if max (length (take 500 c1)) (length (take 500 c2)) = 0 then 0
                  else 1 - of_nat (editDistance (take 500 c1) (take 500 c2))
                           / of_nat (max (length (take 500 c1)) (length (take 500 c2)))) * (3 / 10)
               + (if min (min (length c1) (length c2)) 800 = 0 then 0
                  else of_nat (length (longestCommonSubstring c1 c2 800))
                       / of_nat (min (min (length c1) (length c2)) 800)) * (2 / 10)
          else J) * 100)"
  unfolding resultOf_def pairResult_def Let_def substring_0
  by (simp only: SimilarityResult.select_convs)




lemma split_ws_abc: "split_ws (jsstr ''a b c'') = [jsstr ''a'', jsstr ''b'', jsstr ''c'']"
  by code_simp

lemma createShingles_abc: "createShingles (jsstr ''a b c'') 3 = [jsstr ''a b c'']"
  unfolding createShingles_eq split_ws_abc by (simp add: jsstr_simps)

lemma wordCount_abc: "wordCount (jsstr ''a b c'') = 3"
  unfolding wordCount_def split_ws_abc by (simp add: jsstr_simps)





lemma similarity_abc: "similarity (resultOf [doc_abc, doc_abc] 0 1) = 100 / 3"
  using resultOf_similarity [of 0 "[doc_abc, doc_abc]" 1]
  by (simp add: doc_abc_def createShingles_abc wordCount_abc)


lemma computeAllSimilarities_pair:
  "computeAllSimilarities [A, B] = [resultOf [A, B] 0 1]"
proof -
  have "[0 ..< length [A, B]] = [0, 1]" by (simp add: upt_rec)
  moreover have "[0 + 1 ..< length [A, B]] = [1]" "[1 + 1 ..< length [A, B]] = []"
    by (simp_all add: upt_rec)
  ultimately show ?thesis unfolding computeAllSimilarities_eq by simp
qed

lemma resultOf_matchMetric: "matchMetric (resultOf docs i j) = similarity (resultOf docs i j)"
  unfolding resultOf_def pairResult_def Let_def
  by (simp only: SimilarityResult.select_convs)

lemma resultOf_similarity_swap:
  "similarity (resultOf [A, B] 0 1) = similarity (resultOf [B, A] 0 1)"
  using resultOf_similarity [of 0 "[A, B]" 1] resultOf_similarity [of 0 "[B, A]" 1]
  by (simp add: Int_commute add.commute)

lemma resultOf_compositeScore_swap:
  "compositeScore (resultOf [A, B] 0 1) = compositeScore (resultOf [B, A] 0 1)"
proof -
  have "jaccardSimilarity (createShingles (content A) 3) (createShingles (content B) 3)
      = jaccardSimilarity (createShingles (content B) 3) (createShingles (content A) 3)"
    by (rule jaccardSimilarity_sym)
  moreover have "editDistance (take 500 (content A)) (take 500 (content B))
      = editDistance (take 500 (content B)) (take 500 (content A))"
    by (rule editDistance_sym)
  moreover have "length (longestCommonSubstring (content A) (content B) 800)
      = length (longestCommonSubstring (content B) (content A) 800)"
    by (rule longestCommonSubstring_length_sym)
  moreover have "max (length (take 500 (content A))) (length (take 500 (content B)))
      = max (length (take 500 (content B))) (length (take 500 (content A)))"
    by (rule max.commute)
  moreover have "min (min (length (content A)) (length (content B))) 800
      = min (min (length (content B)) (length (content A))) 800"
    by (simp only: min.commute)
  ultimately show ?thesis
    unfolding resultOf_compositeScore Let_def by (simp del: length_take)
qed

text \<open>
  C5. Every similarity component is symmetric in the two documents:
  \<open>jaccardSimilarity(s1, s2) = jaccardSimilarity(s2, s1)\<close> for all shingle lists, and for
  every pair of documents \<open>A\<close>, \<open>B\<close> the primary similarity, the \<open>matchMetric\<close> and the
  \<open>compositeScore\<close> of the one result computed on \<open>[A, B]\<close> equal those computed on
  \<open>[B, A]\<close>.
\<close>

theorem similarity_symmetric:
  "jaccardSimilarity s1 s2 = jaccardSimilarity s2 s1
   \<and> length (computeAllSimilarities [A, B]) = 1
   \<and> map similarity (computeAllSimilarities [A, B]) = map similarity (computeAllSimilarities [B, A])
   \<and> map matchMetric (computeAllSimilarities [A, B]) = map matchMetric (computeAllSimilarities [B, A])
   \<and> map compositeScore (computeAllSimilarities [A, B])
       = map compositeScore (computeAllSimilarities [B, A])"
  unfolding computeAllSimilarities_pair
  using jaccardSimilarity_sym [of s1 s2] resultOf_similarity_swap [of A B]
    resultOf_compositeScore_swap [of A B]
  by (simp add: resultOf_matchMetric)




section \<open>Clusters are disjoint connected components\<close>

text \<open>
  The function \<open>dfs\<close> satisfies the equations of the recursive procedure of the source.
  A call on an unvisited vertex marks it, appends it to the component and runs the loop
  over its neighbours (\<open>dfs_call\<close>); the loop takes the neighbours in order and calls
  the procedure on those that are not visited at that moment (\<open>dfs_for_loop\<close>).
\<close>

lemma dfs_append: "dfs g (xs @ ys) st = dfs g ys (dfs g xs st)"
proof (induction g xs st rule: dfs.induct)
  case (1 g st)
  show ?case by simp
next
  case (2 g v stack st)
  show ?case
  proof (cases "v \<in> set (fst st)")
    case True
    with 2 show ?thesis by simp
  next
    case False
    have "dfs g ((v # stack) @ ys) st
        = dfs g ((neighbors g v @ stack) @ ys) (v # fst st, snd st @ [v])"
      using False by simp
    also have "\<dots> = dfs g ys (dfs g (neighbors g v @ stack) (v # fst st, snd st @ [v]))"
      using "2.IH"(2) [OF False] .
    also have "dfs g (neighbors g v @ stack) (v # fst st, snd st @ [v]) = dfs g (v # stack) st"
      using False by simp
    finally show ?thesis .
  qed
qed

lemma dfs_call:
  "v \<notin> set (fst st) \<Longrightarrow> dfs g [v] st = dfs g (neighbors g v) (v # fst st, snd st @ [v])"
  by simp

lemma dfs_for_loop:
  "dfs g (n # ns) st = dfs g ns (if n \<in> set (fst st) then st else dfs g [n] st)"
  using dfs_append [of g "[n]" ns st] by simp

text \<open>A traversal appends to the component exactly the vertices it marks visited.\<close>

lemma dfs_new:
  "\<exists>new. dfs g stack st = (rev new @ fst st, snd st @ new)
         \<and> distinct new \<and> set new \<inter> set (fst st) = {}"
proof (induction g stack st rule: dfs.induct)
  case (1 g st)
  have "dfs g [] st = (rev [] @ fst st, snd st @ [])" by simp
  then show ?case by (intro exI [of _ "[]"]) simp
next
  case (2 g v stack st)
  show ?case
  proof (cases "v \<in> set (fst st)")
    case True
    with 2 show ?thesis by simp
  next
    case False
    with 2 obtain new where new: "dfs g (neighbors g v @ stack) (v # fst st, snd st @ [v])
        = (rev new @ v # fst st, (snd st @ [v]) @ new)"
      "distinct new" "set new \<inter> set (v # fst st) = {}"
      by auto
    from False new(1) have "dfs g (v # stack) st = (rev (v # new) @ fst st, snd st @ v # new)"
      by simp
    moreover from new(2,3) False have "distinct (v # new)" "set (v # new) \<inter> set (fst st) = {}"
      by auto
    ultimately show ?thesis by blast
  qed
qed

text \<open>The loop over the keys keeps the components duplicate-free and disjoint.\<close>

lemma fcc_distinct:
  assumes "distinct (concat (snd st))" "set (concat (snd st)) \<subseteq> set (fst st)"
  shows "distinct (concat (snd (fold (\<lambda>vertex (visited, components).
                  if vertex \<in> set visited then (visited, components)
                  else (case dfs g [vertex] (visited, []) of
                          (visited', component) \<Rightarrow> (visited', components @ [component])))
            ks st)))"
  using assms
proof (induction ks arbitrary: st)
  case Nil
  then show ?case by simp
next
  case (Cons k ks)
  obtain visited components where st: "st = (visited, components)" by (cases st) auto
  show ?case
  proof (cases "k \<in> set visited")
    case True
    with Cons show ?thesis by (simp add: st)
  next
    case False
    obtain new where new: "dfs g [k] (visited, []) = (rev new @ visited, new)"
      "distinct new" "set new \<inter> set visited = {}"
      using dfs_new [of g "[k]" "(visited, [])"] by auto
    let ?st' = "(rev new @ visited, components @ [new])"
    have "distinct (concat (snd ?st'))" "set (concat (snd ?st')) \<subseteq> set (fst ?st')"
      using Cons.prems new(2,3) by (auto simp: st)
    from Cons.IH [OF this] False new(1) show ?thesis by (simp add: st)
  qed
qed

lemma findConnectedComponents_distinct: "distinct (concat (findConnectedComponents g))"
  unfolding findConnectedComponents_def by (rule fcc_distinct) simp_all

lemma distinct_concat_filter: "distinct (concat xss) \<Longrightarrow> distinct (concat (filter P xss))"
  by (induction xss) auto

lemma distinct_concat_nth:
  "distinct (concat xss) \<Longrightarrow> i < length xss \<Longrightarrow> j < length xss \<Longrightarrow> i \<noteq> j
     \<Longrightarrow> set (xss ! i) \<inter> set (xss ! j) = {}"
proof (induction xss arbitrary: i j)
  case Nil
  then show ?case by simp
next
  case (Cons xs xss)
  show ?case
  proof (cases i)
    case 0
    with Cons.prems obtain j' where j: "j = Suc j'" "j' < length xss" by (cases j) auto
    then have "set (xss ! j') \<subseteq> \<Union> (set ` set xss)"
      using nth_mem [of j' xss] by blast
    moreover from Cons.prems(1) have "set xs \<inter> \<Union> (set ` set xss) = {}" by simp
    ultimately show ?thesis using 0 j by auto
  next
    case (Suc i')
    show ?thesis
    proof (cases j)
      case 0
      from Suc Cons.prems have "set (xss ! i') \<subseteq> \<Union> (set ` set xss)"
        using nth_mem [of i' xss] by auto
      moreover from Cons.prems(1) have "set xs \<inter> \<Union> (set ` set xss) = {}" by simp
      ultimately show ?thesis using 0 Suc by auto
    next
      case j: (Suc j')
      with Suc Cons show ?thesis by simp
    qed
  qed
qed

lemma documents_mkCluster: "documents (mkCluster similarities (i, c)) = c"
  by (simp add: mkCluster_def Let_def)

lemma cluster_id_mkCluster: "cluster_id (mkCluster similarities (i, c)) = i"
  by (simp add: mkCluster_def Let_def)

lemma map_documents_createClusters:
  "map documents (createClusters docs similarities threshold) =
     filter (\<lambda>component. length component > 1)
       (findConnectedComponents (buildGraph docs similarities threshold))"
proof -
  have "map documents (map (mkCluster similarities) (enumerate 0 xs)) = xs" for xs :: "jsstring list list"
  proof -
    have "(\<lambda>ic. documents (mkCluster similarities ic)) = snd"
      by (rule ext) (simp add: mkCluster_def Let_def split: prod.split)
    then have "map documents (map (mkCluster similarities) (enumerate 0 xs))
        = map snd (enumerate 0 xs)"
      by (simp add: comp_def)
    then show ?thesis by (simp only: map_snd_enumerate)
  qed
  then show ?thesis by (simp add: createClusters_def Let_def)
qed

lemma map_cluster_id_createClusters:
  "map cluster_id (createClusters docs similarities threshold) =
     [0 ..< length (createClusters docs similarities threshold)]"
proof -
  have "map cluster_id (map (mkCluster similarities) (enumerate 0 xs)) = [0 ..< length xs]"
    for xs :: "jsstring list list"
  proof -
    have "(\<lambda>ic. cluster_id (mkCluster similarities ic)) = fst"
      by (rule ext) (simp add: mkCluster_def Let_def split: prod.split)
    then have "map cluster_id (map (mkCluster similarities) (enumerate 0 xs))
        = map fst (enumerate 0 xs)"
      by (simp add: comp_def)
    then show ?thesis by (simp only: map_fst_enumerate add_0)
  qed
  then show ?thesis by (simp add: createClusters_def Let_def)
qed

text \<open>
  The order of discovery. A component starts with the vertex on which the loop over the
  keys called \<open>dfs\<close>, and the components come in the order in which the loop met these
  vertices: their first vertices form a subsequence of the keys.
\<close>

lemma dfs_root:
  assumes "v \<notin> set visited"
  shows "\<exists>new. dfs g [v] (visited, []) = (rev new @ v # visited, v # new)"
proof -
  from dfs_new [of g "neighbors g v" "(v # visited, [v])"]
  obtain new where "dfs g (neighbors g v) (v # visited, [v]) = (rev new @ v # visited, [v] @ new)"
    by auto
  with assms show ?thesis by simp
qed

lemma fcc_order:
  "\<exists>new. snd (fold (\<lambda>vertex (visited, components).
                  if vertex \<in> set visited then (visited, components)
                  else (case dfs g [vertex] (visited, []) of
                          (visited', component) \<Rightarrow> (visited', components @ [component])))
            ks st) = snd st @ new
         \<and> [] \<notin> set new \<and> subseq (map hd new) ks"
proof (induction ks arbitrary: st)
  case Nil
  show ?case by simp
next
  case (Cons k ks)
  obtain visited components where st: "st = (visited, components)" by (cases st)
  show ?case
  proof (cases "k \<in> set visited")
    case True
    from Cons [of st] obtain new where new: "snd (fold (\<lambda>vertex (visited, components).
                  if vertex \<in> set visited then (visited, components)
                  else (case dfs g [vertex] (visited, []) of
                          (visited', component) \<Rightarrow> (visited', components @ [component])))
            ks st) = snd st @ new" "[] \<notin> set new" "subseq (map hd new) ks" by blast
    from new(3) have "subseq (map hd new) (k # ks)" by (rule list_emb_Cons)
    with new(1,2) True st show ?thesis by auto
  next
    case False
    from dfs_root [OF False, of g] obtain n2 where
      n2: "dfs g [k] (visited, []) = (rev n2 @ k # visited, k # n2)" by blast
    let ?st' = "(rev n2 @ k # visited, components @ [k # n2])"
    from Cons [of ?st'] obtain new where new: "snd (fold (\<lambda>vertex (visited, components).
                  if vertex \<in> set visited then (visited, components)
                  else (case dfs g [vertex] (visited, []) of
                          (visited', component) \<Rightarrow> (visited', components @ [component])))
            ks ?st') = snd ?st' @ new" "[] \<notin> set new" "subseq (map hd new) ks" by blast
    have "snd (fold (\<lambda>vertex (visited, components).
                  if vertex \<in> set visited then (visited, components)
                  else (case dfs g [vertex] (visited, []) of
                          (visited', component) \<Rightarrow> (visited', components @ [component])))
            (k # ks) st) = snd st @ ((k # n2) # new)"
      using False st n2 new(1) by simp
    moreover have "[] \<notin> set ((k # n2) # new)" using new(2) by simp
    moreover have "subseq (map hd ((k # n2) # new)) (k # ks)" using new(3) by simp
    ultimately show ?thesis by blast
  qed
qed

lemma findConnectedComponents_order:
  "[] \<notin> set (findConnectedComponents g)
   \<and> subseq (map hd (findConnectedComponents g)) (map fst g)"
  using fcc_order [of g "map fst g" "([], [])"] by (auto simp: findConnectedComponents_def)

lemma hd_documents_createClusters:
  "subseq (map (\<lambda>c. hd (documents c)) (createClusters docs similarities threshold))
     (map fst (buildGraph docs similarities threshold))"
proof -
  let ?g = "buildGraph docs similarities threshold"
  have "map (\<lambda>c. hd (documents c)) (createClusters docs similarities threshold)
      = map hd (map documents (createClusters docs similarities threshold))"
    by (simp add: comp_def)
  also have "\<dots> = map hd (filter (\<lambda>component. length component > 1) (findConnectedComponents ?g))"
    by (simp only: map_documents_createClusters)
  finally have e: "map (\<lambda>c. hd (documents c)) (createClusters docs similarities threshold)
      = map hd (filter (\<lambda>component. length component > 1) (findConnectedComponents ?g))" .
  have "subseq (map hd (filter (\<lambda>component. length component > 1) (findConnectedComponents ?g)))
          (map hd (findConnectedComponents ?g))"
    by (intro subseq_map subseq_filter_left)
  also have "subseq \<dots> (map fst ?g)"
    using findConnectedComponents_order by blast
  finally show ?thesis unfolding e .
qed

text \<open>
  C6. For every document list, similarity list and threshold, the clusters returned by
  \<open>createClusters\<close> satisfy: no document identifier occurs in two different clusters,
  every cluster contains at least 2 (distinct) document identifiers, and the cluster ids
  are the dense integers \<open>0, 1, 2, ...\<close> assigned in discovery order: the cluster with id
  \<open>k\<close> is the \<open>k\<close>-th element of the result and holds the \<open>k\<close>-th of the components of more
  than one vertex, in the order in which \<open>findConnectedComponents\<close> found them, so that the
  first documents of the clusters \<open>0, 1, 2, ...\<close> come in the order of the keys of the
  graph.
\<close>

theorem createClusters_partition:
  "(\<forall>i < length (createClusters docs similarities threshold).
      \<forall>j < length (createClusters docs similarities threshold). i \<noteq> j \<longrightarrow>
        set (documents (createClusters docs similarities threshold ! i))
        \<inter> set (documents (createClusters docs similarities threshold ! j)) = {})
   \<and> (\<forall>c \<in> set (createClusters docs similarities threshold).
        distinct (documents c) \<and> 2 \<le> card (set (documents c)))
   \<and> map cluster_id (createClusters docs similarities threshold)
       = [0 ..< length (createClusters docs similarities threshold)]
   \<and> map documents (createClusters docs similarities threshold)
       = filter (\<lambda>component. length component > 1)
           (findConnectedComponents (buildGraph docs similarities threshold))
   \<and> subseq (map (\<lambda>c. hd (documents c)) (createClusters docs similarities threshold))
        (map fst (buildGraph docs similarities threshold))"
proof (intro conjI allI impI ballI)
  let ?cs = "createClusters docs similarities threshold"
  let ?comps = "filter (\<lambda>component. length component > 1)
       (findConnectedComponents (buildGraph docs similarities threshold))"
  have m: "map documents ?cs = ?comps" by (rule map_documents_createClusters)
  have d: "distinct (concat ?comps)"
    by (intro distinct_concat_filter findConnectedComponents_distinct)
  have len: "length ?comps = length ?cs" using m by (metis length_map)
  have nth: "documents (?cs ! i) = ?comps ! i" if "i < length ?cs" for i
    using that m by (metis nth_map)
  show "map cluster_id ?cs = [0 ..< length ?cs]" by (rule map_cluster_id_createClusters)
  show "map documents ?cs = ?comps" by (rule m)
  show "subseq (map (\<lambda>c. hd (documents c)) ?cs)
          (map fst (buildGraph docs similarities threshold))"
    by (rule hd_documents_createClusters)
  {
    fix i j assume ij: "i < length ?cs" "j < length ?cs" "i \<noteq> j"
    then show "set (documents (?cs ! i)) \<inter> set (documents (?cs ! j)) = {}"
      using distinct_concat_nth [OF d, of i j] nth len by simp
  }
  {
    fix c assume "c \<in> set ?cs"
    then have "documents c \<in> set (map documents ?cs)" by simp
    then have c: "documents c \<in> set ?comps" unfolding m .
    then have l: "length (documents c) > 1" by simp
    from c d show dc: "distinct (documents c)" by (auto simp: distinct_concat_iff)
    from l distinct_card [OF dc] show "2 \<le> card (set (documents c))" by simp
  }
qed

section \<open>Traversal and reachability\<close>

lemma dfs_visited_mono: "set (fst st) \<subseteq> set (fst (dfs g stack st))"
  using dfs_new [of g stack st] by auto

lemma dfs_reach:
  "set (fst (dfs g stack st)) \<subseteq> set (fst st) \<union> (edges g)\<^sup>* `` set stack"
proof (induction g stack st rule: dfs.induct)
  case (1 g st)
  show ?case by simp
next
  case (2 g v stack st)
  show ?case
  proof (cases "v \<in> set (fst st)")
    case True
    with 2 show ?thesis by auto
  next
    case False
    have nb: "set (neighbors g v) \<subseteq> (edges g)\<^sup>* `` {v}"
      by (auto simp: edges_def)
    have "(edges g)\<^sup>* `` set (neighbors g v) \<subseteq> (edges g)\<^sup>* `` {v}"
    proof
      fix x assume "x \<in> (edges g)\<^sup>* `` set (neighbors g v)"
      then obtain w where "w \<in> set (neighbors g v)" "(w, x) \<in> (edges g)\<^sup>*" by blast
      moreover from this nb have "(v, w) \<in> (edges g)\<^sup>*" by blast
      ultimately show "x \<in> (edges g)\<^sup>* `` {v}" by (auto intro: rtrancl_trans)
    qed
    then have 1: "(edges g)\<^sup>* `` set (neighbors g v) \<subseteq> (edges g)\<^sup>* `` set (v # stack)"
      by auto
    have 2: "(edges g)\<^sup>* `` set stack \<subseteq> (edges g)\<^sup>* `` set (v # stack)" by auto
    have 3: "v \<in> (edges g)\<^sup>* `` set (v # stack)" by auto
    have eq: "dfs g (v # stack) st = dfs g (neighbors g v @ stack) (v # fst st, snd st @ [v])"
      using False by simp
    have "set (fst (dfs g (neighbors g v @ stack) (v # fst st, snd st @ [v])))
        \<subseteq> set (fst (v # fst st, snd st @ [v])) \<union> (edges g)\<^sup>* `` set (neighbors g v @ stack)"
      using "2.IH"(2) [OF False] .
    then have "set (fst (dfs g (v # stack) st))
        \<subseteq> insert v (set (fst st)) \<union> ((edges g)\<^sup>* `` set (neighbors g v)
            \<union> (edges g)\<^sup>* `` set stack)"
      unfolding eq by (simp add: Image_Un)
    with 1 2 3 show ?thesis by blast
  qed
qed

lemma dfs_closed:
  assumes "\<forall>u\<in>set (fst st). \<forall>w\<in>set (neighbors g u). w \<in> set (fst st) \<or> w \<in> set stack"
  shows "(\<forall>u\<in>set (fst (dfs g stack st)). \<forall>w\<in>set (neighbors g u). w \<in> set (fst (dfs g stack st)))
       \<and> set stack \<subseteq> set (fst (dfs g stack st))"
  using assms
proof (induction g stack st rule: dfs.induct)
  case (1 g st)
  then show ?case by simp
next
  case (2 g v stack st)
  show ?case
  proof (cases "v \<in> set (fst st)")
    case True
    then have eq: "dfs g (v # stack) st = dfs g stack st" by simp
    have "\<forall>u\<in>set (fst st). \<forall>w\<in>set (neighbors g u). w \<in> set (fst st) \<or> w \<in> set stack"
      using "2.prems" True by auto
    from 2(1) [OF True this] have IH:
      "\<forall>u\<in>set (fst (dfs g stack st)). \<forall>w\<in>set (neighbors g u). w \<in> set (fst (dfs g stack st))"
      "set stack \<subseteq> set (fst (dfs g stack st))" by blast+
    moreover have "v \<in> set (fst (dfs g stack st))"
      using True dfs_visited_mono [of st g stack] by blast
    ultimately show ?thesis unfolding eq by simp
  next
    case False
    let ?st' = "(v # fst st, snd st @ [v])"
    let ?r = "dfs g (neighbors g v @ stack) ?st'"
    have eq: "dfs g (v # stack) st = ?r" using False by simp
    have "\<forall>u\<in>set (fst ?st'). \<forall>w\<in>set (neighbors g u).
        w \<in> set (fst ?st') \<or> w \<in> set (neighbors g v @ stack)"
      using "2.prems" by auto
    from 2(2) [OF False this] have IH:
      "\<forall>u\<in>set (fst ?r). \<forall>w\<in>set (neighbors g u). w \<in> set (fst ?r)"
      "set (neighbors g v @ stack) \<subseteq> set (fst ?r)" by blast+
    moreover have "v \<in> set (fst ?r)"
      using dfs_visited_mono [of ?st' g "neighbors g v @ stack"] by auto
    ultimately show ?thesis unfolding eq by simp
  qed
qed

lemma closed_rtrancl:
  assumes "(v, x) \<in> R\<^sup>*" "v \<in> V" "R `` V \<subseteq> V"
  shows "x \<in> V"
  using assms by (induction rule: rtrancl_induct) auto

lemma sym_reach_eq:
  assumes "sym R" "(v, k) \<in> R\<^sup>*"
  shows "R\<^sup>* `` {k} = R\<^sup>* `` {v}"
proof -
  from assms have "(k, v) \<in> R\<^sup>*"
    by (metis sym_rtrancl symD)
  with assms(2) show ?thesis by (auto intro: rtrancl_trans)
qed

text \<open>One traversal from an unvisited key, the visited set being closed under edges.\<close>

lemma dfs_component:
  assumes closed: "edges g `` set vis \<subseteq> set vis" and v: "v \<notin> set vis" and sym: "sym (edges g)"
  obtains comp vis' where "dfs g [v] (vis, []) = (vis', comp)"
    and "set vis' = set vis \<union> set comp" and "set comp = (edges g)\<^sup>* `` {v}"
    and "edges g `` set vis' \<subseteq> set vis'"
proof -
  obtain new where new: "dfs g [v] (vis, []) = (rev new @ vis, new)"
    "distinct new" "set new \<inter> set vis = {}"
    using dfs_new [of g "[v]" "(vis, [])"] by auto
  let ?R = "edges g"
  have sound: "set (rev new @ vis) \<subseteq> set vis \<union> ?R\<^sup>* `` {v}"
    using dfs_reach [of g "[v]" "(vis, [])"] new(1) by simp
  have "\<forall>u\<in>set (fst (vis, [])). \<forall>w\<in>set (neighbors g u). w \<in> set (fst (vis, [])) \<or> w \<in> set [v]"
    using closed by (auto simp: edges_def)
  from dfs_closed [OF this] new(1)
  have cl: "\<forall>u\<in>set (rev new @ vis). \<forall>w\<in>set (neighbors g u). w \<in> set (rev new @ vis)"
    and vin: "v \<in> set (rev new @ vis)" by simp_all
  from cl have closed': "?R `` set (rev new @ vis) \<subseteq> set (rev new @ vis)"
    by (auto simp: edges_def)
  have complete: "?R\<^sup>* `` {v} \<subseteq> set (rev new @ vis)"
    using closed_rtrancl [OF _ vin closed'] by blast
  have disj: "?R\<^sup>* `` {v} \<inter> set vis = {}"
  proof (rule ccontr)
    assume "?R\<^sup>* `` {v} \<inter> set vis \<noteq> {}"
    then obtain x where x: "(v, x) \<in> ?R\<^sup>*" "x \<in> set vis" by blast
    then have "(x, v) \<in> ?R\<^sup>*" using sym by (metis sym_rtrancl symD)
    from closed_rtrancl [OF this x(2) closed] v show False by simp
  qed
  have "set new = ?R\<^sup>* `` {v}"
  proof
    show "set new \<subseteq> ?R\<^sup>* `` {v}" using sound new(3) by auto
    show "?R\<^sup>* `` {v} \<subseteq> set new" using complete disj by auto
  qed
  moreover have "set (rev new @ vis) = set vis \<union> set new" by auto
  ultimately show thesis using that [OF new(1)] closed' by blast
qed

lemma fcc_components:
  assumes sym: "sym (edges g)"
    and "edges g `` set (fst st) \<subseteq> set (fst st)"
    and "\<forall>c\<in>set (snd st). \<exists>v\<in>K. set c = (edges g)\<^sup>* `` {v}"
    and "set (fst st) \<subseteq> set (concat (snd st))"
    and "set ks \<subseteq> K"
  shows "edges g `` set (fst (fold (\<lambda>vertex (visited, components).
                  if vertex \<in> set visited then (visited, components)
                  else (case dfs g [vertex] (visited, []) of
                          (visited', component) \<Rightarrow> (visited', components @ [component])))
            ks st))
        \<subseteq> set (fst (fold (\<lambda>vertex (visited, components).
                  if vertex \<in> set visited then (visited, components)
                  else (case dfs g [vertex] (visited, []) of
                          (visited', component) \<Rightarrow> (visited', components @ [component])))
            ks st))
     \<and> (\<forall>c\<in>set (snd (fold (\<lambda>vertex (visited, components).
                  if vertex \<in> set visited then (visited, components)
                  else (case dfs g [vertex] (visited, []) of
                          (visited', component) \<Rightarrow> (visited', components @ [component])))
            ks st)). \<exists>v\<in>K. set c = (edges g)\<^sup>* `` {v})
     \<and> set ks \<union> set (fst st)
        \<subseteq> set (concat (snd (fold (\<lambda>vertex (visited, components).
                  if vertex \<in> set visited then (visited, components)
                  else (case dfs g [vertex] (visited, []) of
                          (visited', component) \<Rightarrow> (visited', components @ [component])))
            ks st)))"
  using assms(2-5)
proof (induction ks arbitrary: st)
  case Nil
  then show ?case by simp
next
  case (Cons k ks)
  obtain visited components where st: "st = (visited, components)" by (cases st) auto
  let ?step = "\<lambda>vertex (visited, components).
                  if vertex \<in> set visited then (visited, components)
                  else (case dfs g [vertex] (visited, []) of
                          (visited', component) \<Rightarrow> (visited', components @ [component]))"
  show ?case
  proof (cases "k \<in> set visited")
    case True
    then have eq: "fold ?step (k # ks) st = fold ?step ks st" by (simp add: st)
    have ks: "set ks \<subseteq> K" using Cons.prems(4) by simp
    from Cons.IH [OF Cons.prems(1-3) ks] True Cons.prems(3) show ?thesis
      unfolding eq by (auto simp: st)
  next
    case False
    from Cons.prems(1) have cl: "edges g `` set visited \<subseteq> set visited" by (simp add: st)
    obtain comp vis' where d: "dfs g [k] (visited, []) = (vis', comp)"
      and vis': "set vis' = set visited \<union> set comp"
      and comp: "set comp = (edges g)\<^sup>* `` {k}"
      and cl': "edges g `` set vis' \<subseteq> set vis'"
      by (rule dfs_component [OF cl False sym])
    let ?st' = "(vis', components @ [comp])"
    have eq: "fold ?step (k # ks) st = fold ?step ks ?st'"
      using False d by (simp add: st)
    have k: "k \<in> K" and ks: "set ks \<subseteq> K" using Cons.prems(4) by simp_all
    have 1: "edges g `` set (fst ?st') \<subseteq> set (fst ?st')" using cl' by simp
    have 2: "\<forall>c\<in>set (snd ?st'). \<exists>v\<in>K. set c = (edges g)\<^sup>* `` {v}"
      using Cons.prems(2) comp k by (auto simp: st)
    have 3: "set (fst ?st') \<subseteq> set (concat (snd ?st'))"
      using Cons.prems(3) vis' by (auto simp: st)
    have "k \<in> set comp" unfolding comp by simp
    then have 4: "insert k (set visited) \<subseteq> set (fst ?st')" using vis' by auto
    from Cons.IH [OF 1 2 3 ks] 4 show ?thesis
      unfolding eq by (auto simp: st)
  qed
qed

lemma findConnectedComponents_reach:
  assumes sym: "sym (edges g)"
  shows "\<forall>c\<in>set (findConnectedComponents g). \<exists>v\<in>fst ` set g. set c = (edges g)\<^sup>* `` {v}"
    and "\<forall>k\<in>fst ` set g. \<exists>c\<in>set (findConnectedComponents g). set c = (edges g)\<^sup>* `` {k}"
proof -
  have inv: "(\<forall>c\<in>set (findConnectedComponents g). \<exists>v\<in>fst ` set g. set c = (edges g)\<^sup>* `` {v})
      \<and> set (map fst g) \<union> set (fst ([]::jsstring list, []::jsstring list list))
          \<subseteq> set (concat (findConnectedComponents g))"
    unfolding findConnectedComponents_def
    using fcc_components [OF sym, of "([], [])" "fst ` set g" "map fst g"] by simp
  then show a: "\<forall>c\<in>set (findConnectedComponents g). \<exists>v\<in>fst ` set g. set c = (edges g)\<^sup>* `` {v}"
    by blast
  show "\<forall>k\<in>fst ` set g. \<exists>c\<in>set (findConnectedComponents g). set c = (edges g)\<^sup>* `` {k}"
  proof
    fix k assume "k \<in> fst ` set g"
    with inv have "k \<in> set (concat (findConnectedComponents g))" by auto
    then obtain c where c: "c \<in> set (findConnectedComponents g)" "k \<in> set c" by auto
    with a obtain v where "set c = (edges g)\<^sup>* `` {v}" by blast
    moreover from this c(2) have "(v, k) \<in> (edges g)\<^sup>*" by simp
    ultimately have "set c = (edges g)\<^sup>* `` {k}" using sym_reach_eq [OF sym] by simp
    with c(1) show "\<exists>c\<in>set (findConnectedComponents g). set c = (edges g)\<^sup>* `` {k}" by blast
  qed
qed

text \<open>The graph that \<open>createClusters\<close> builds.\<close>

lemma neighbors_addVertex: "neighbors (addVertex g v) u = neighbors g u"
  by (auto simp: neighbors_def addVertex_def map_add_def split: option.splits)

lemma keys_addVertex: "fst ` set (addVertex g v) = insert v (fst ` set g)"
  by (auto simp: addVertex_def)

lemma map_of_adj_add:
  "map_of (adj_add g v1 v2) u =
     (if u = v1 then map_option (\<lambda>ns. Set_add ns v2) (map_of g v1) else map_of g u)"
  by (induction g) (auto simp: adj_add_def)

lemma keys_adj_add: "fst ` set (adj_add g v1 v2) = fst ` set g"
  by (force simp: adj_add_def split: if_splits)

lemma edges_addVertex: "edges (addVertex g v) = edges g"
  by (simp add: edges_def neighbors_addVertex)

lemma edges_adj_add:
  "v1 \<in> fst ` set g \<Longrightarrow> edges (adj_add g v1 v2) = insert (v1, v2) (edges g)"
proof -
  assume "v1 \<in> fst ` set g"
  then obtain ns where ns: "map_of g v1 = Some ns"
    by (metis map_of_eq_None_iff not_None_eq)
  show ?thesis
    unfolding edges_def neighbors_def map_of_adj_add
    using ns by (auto simp: Set_add_def split: if_splits option.splits)
qed

lemma edges_addEdge: "edges (addEdge g v1 v2) = insert (v1, v2) (insert (v2, v1) (edges g))"
proof -
  let ?g2 = "addVertex (addVertex g v1) v2"
  have k1: "v1 \<in> fst ` set ?g2" and k2: "v2 \<in> fst ` set (adj_add ?g2 v1 v2)"
    by (simp_all add: keys_addVertex keys_adj_add)
  show ?thesis
    unfolding addEdge_def edges_adj_add [OF k2] edges_adj_add [OF k1]
    by (auto simp: edges_addVertex)
qed

lemma keys_addEdge: "fst ` set (addEdge g v1 v2) = insert v1 (insert v2 (fst ` set g))"
  by (auto simp: addEdge_def keys_adj_add keys_addVertex)

lemma fold_addVertex:
  "edges (fold (\<lambda>doc g. addVertex g (doc_id doc)) docs g) = edges g"
  "fst ` set (fold (\<lambda>doc g. addVertex g (doc_id doc)) docs g) = fst ` set g \<union> doc_id ` set docs"
  by (induction docs arbitrary: g) (auto simp: edges_addVertex keys_addVertex)

lemma fold_addEdge:
  "edges (fold (\<lambda>sim g. if similarity sim \<ge> threshold
                        then addEdge g (doc1Id sim) (doc2Id sim) else g) sims g)
     = edges g \<union> {(a, b). \<exists>s\<in>set sims. threshold \<le> similarity s \<and>
          (a = doc1Id s \<and> b = doc2Id s \<or> a = doc2Id s \<and> b = doc1Id s)}"
  "fst ` set (fold (\<lambda>sim g. if similarity sim \<ge> threshold
                        then addEdge g (doc1Id sim) (doc2Id sim) else g) sims g)
     = fst ` set g \<union> {a. \<exists>s\<in>set sims. threshold \<le> similarity s \<and>
          (a = doc1Id s \<or> a = doc2Id s)}"
proof (induction sims arbitrary: g)
  case Nil
  { case 1 show ?case by simp }
  { case 2 show ?case by simp }
next
  case (Cons s sims)
  { case 1 show ?case unfolding fold_Cons comp_def Cons.IH(1) by (auto simp: edges_addEdge) }
  { case 2 show ?case unfolding fold_Cons comp_def Cons.IH(2) by (auto simp: keys_addEdge) }
qed

lemma edges_Nil: "edges [] = {}"
  by (simp add: edges_def neighbors_def)

lemma edges_buildGraph:
  "edges (buildGraph docs sims threshold)
     = {(a, b). \<exists>s\<in>set sims. threshold \<le> similarity s \<and>
          (a = doc1Id s \<and> b = doc2Id s \<or> a = doc2Id s \<and> b = doc1Id s)}"
  unfolding buildGraph_def Let_def fold_addEdge(1) fold_addVertex(1) edges_Nil by simp

lemma keys_buildGraph:
  "fst ` set (buildGraph docs sims threshold)
     = doc_id ` set docs \<union> {a. \<exists>s\<in>set sims. threshold \<le> similarity s \<and>
          (a = doc1Id s \<or> a = doc2Id s)}"
  unfolding buildGraph_def Let_def fold_addEdge(2) fold_addVertex(2) by simp

lemma sym_buildGraph: "sym (edges (buildGraph docs sims threshold))"
  unfolding edges_buildGraph by (auto intro!: symI)

lemma buildGraph_mono:
  assumes "t1 \<le> t2"
  shows "edges (buildGraph docs sims t2) \<subseteq> edges (buildGraph docs sims t1)"
    and "fst ` set (buildGraph docs sims t2) \<subseteq> fst ` set (buildGraph docs sims t1)"
proof -
  have le: "t1 \<le> x" if "t2 \<le> x" for x :: rat
    using assms that by (rule order_trans)
  show "edges (buildGraph docs sims t2) \<subseteq> edges (buildGraph docs sims t1)"
    unfolding edges_buildGraph using le by blast
  show "fst ` set (buildGraph docs sims t2) \<subseteq> fst ` set (buildGraph docs sims t1)"
    unfolding keys_buildGraph using le by blast
qed

lemma documents_createClusters:
  "documents ` set (createClusters docs sims threshold) =
     {c \<in> set (findConnectedComponents (buildGraph docs sims threshold)). length c > 1}"
proof -
  have "documents ` set (createClusters docs sims threshold)
      = set (map documents (createClusters docs sims threshold))" by simp
  also have "\<dots> = {c \<in> set (findConnectedComponents (buildGraph docs sims threshold)). length c > 1}"
    unfolding map_documents_createClusters by auto
  finally show ?thesis .
qed

lemma findConnectedComponents_distinct_each:
  "c \<in> set (findConnectedComponents g) \<Longrightarrow> distinct c"
  using findConnectedComponents_distinct [of g] by (auto simp: distinct_concat_iff)

text \<open>
  C2, as far as it holds. For every document list, every similarity list and thresholds
  \<open>t1 \<le> t2\<close>, each cluster returned by \<open>createClusters\<close> at \<open>t2\<close> is contained in some
  cluster returned at \<open>t1\<close>, which has at least as many documents: raising the threshold
  never makes a cluster grow.
\<close>

theorem createClusters_threshold_mono:
  "t1 \<le> t2 \<Longrightarrow>
   \<forall>c2\<in>set (createClusters docs sims t2). \<exists>c1\<in>set (createClusters docs sims t1).
      set (documents c2) \<subseteq> set (documents c1) \<and> length (documents c2) \<le> length (documents c1)"
proof
  assume t: "t1 \<le> t2"
  let ?g1 = "buildGraph docs sims t1" and ?g2 = "buildGraph docs sims t2"
  fix c2 assume "c2 \<in> set (createClusters docs sims t2)"
  then have "documents c2 \<in> documents ` set (createClusters docs sims t2)" by (rule imageI)
  then have c2: "documents c2 \<in> set (findConnectedComponents ?g2)" "length (documents c2) > 1"
    unfolding documents_createClusters by simp_all
  from findConnectedComponents_reach(1) [OF sym_buildGraph, of docs sims t2] c2(1)
  obtain v where v: "v \<in> fst ` set ?g2" "set (documents c2) = (edges ?g2)\<^sup>* `` {v}" by blast
  from v(1) buildGraph_mono(2) [OF t] have "v \<in> fst ` set ?g1" by blast
  with findConnectedComponents_reach(2) [OF sym_buildGraph, of docs sims t1]
  obtain comp1 where comp1: "comp1 \<in> set (findConnectedComponents ?g1)"
    "set comp1 = (edges ?g1)\<^sup>* `` {v}" by blast
  have "(edges ?g2)\<^sup>* \<subseteq> (edges ?g1)\<^sup>*"
    using buildGraph_mono(1) [OF t] by (rule rtrancl_mono)
  with v(2) comp1(2) have sub: "set (documents c2) \<subseteq> set comp1" by blast
  have "distinct (documents c2)" "distinct comp1"
    using c2(1) comp1(1) by (simp_all add: findConnectedComponents_distinct_each)
  then have "length (documents c2) = card (set (documents c2))" "length comp1 = card (set comp1)"
    by (simp_all add: distinct_card)
  with sub have len: "length (documents c2) \<le> length comp1"
    by (simp add: card_mono)
  with c2(2) comp1(1) have "comp1 \<in> documents ` set (createClusters docs sims t1)"
    unfolding documents_createClusters by simp
  then obtain c1 where "c1 \<in> set (createClusters docs sims t1)" "documents c1 = comp1" by blast
  with sub len show "\<exists>c1\<in>set (createClusters docs sims t1).
      set (documents c2) \<subseteq> set (documents c1) \<and> length (documents c2) \<le> length (documents c1)"
    by blast
qed

lemma createClusters_ex_50:
  "map documents (createClusters ex_docs ex_sims 50)
     = [[jsstr ''a'', jsstr ''b''], [jsstr ''c'', jsstr ''d'']]"
  by code_simp

lemma createClusters_ex_35:
  "map documents (createClusters ex_docs ex_sims 35)
     = [[jsstr ''a'', jsstr ''b'', jsstr ''c'', jsstr ''d'']]"
  by code_simp

lemma length_createClusters_ex:
  "length (createClusters ex_docs ex_sims 50) = 2" "length (createClusters ex_docs ex_sims 35) = 1"
proof -
  have "length (map documents (createClusters ex_docs ex_sims 50)) = 2"
    unfolding createClusters_ex_50 by simp
  then show "length (createClusters ex_docs ex_sims 50) = 2" by simp
  have "length (map documents (createClusters ex_docs ex_sims 35)) = 1"
    unfolding createClusters_ex_35 by simp
  then show "length (createClusters ex_docs ex_sims 35) = 1" by simp
qed

lemma documents_createClusters_ex:
  "documents (createClusters ex_docs ex_sims 50 ! 0) = [jsstr ''a'', jsstr ''b'']"
  "documents (createClusters ex_docs ex_sims 50 ! 1) = [jsstr ''c'', jsstr ''d'']"
  "documents (createClusters ex_docs ex_sims 35 ! 0) = [jsstr ''a'', jsstr ''b'', jsstr ''c'', jsstr ''d'']"
proof -
  have "map documents (createClusters ex_docs ex_sims 50) ! 0 = [jsstr ''a'', jsstr ''b'']"
    "map documents (createClusters ex_docs ex_sims 50) ! 1 = [jsstr ''c'', jsstr ''d'']"
    unfolding createClusters_ex_50 by simp_all
  then show "documents (createClusters ex_docs ex_sims 50 ! 0) = [jsstr ''a'', jsstr ''b'']"
    "documents (createClusters ex_docs ex_sims 50 ! 1) = [jsstr ''c'', jsstr ''d'']"
    by (simp_all add: length_createClusters_ex)
  have "map documents (createClusters ex_docs ex_sims 35) ! 0
      = [jsstr ''a'', jsstr ''b'', jsstr ''c'', jsstr ''d'']"
    unfolding createClusters_ex_35 by simp
  then show "documents (createClusters ex_docs ex_sims 35 ! 0)
      = [jsstr ''a'', jsstr ''b'', jsstr ''c'', jsstr ''d'']"
    by (simp add: length_createClusters_ex)
qed

theorem createClusters_threshold_mono_witness:
  "(35::rat) \<le> 50
   \<and> createClusters ex_docs ex_sims 50 ! 0 \<in> set (createClusters ex_docs ex_sims 50)
   \<and> createClusters ex_docs ex_sims 35 ! 0 \<in> set (createClusters ex_docs ex_sims 35)
   \<and> set (documents (createClusters ex_docs ex_sims 50 ! 0))
       \<subseteq> set (documents (createClusters ex_docs ex_sims 35 ! 0))"
proof -
  have le: "(35::rat) \<le> 50" by simp
  have m2: "createClusters ex_docs ex_sims 50 ! 0 \<in> set (createClusters ex_docs ex_sims 50)"
    by (rule nth_mem) (simp add: length_createClusters_ex)
  have m1: "createClusters ex_docs ex_sims 35 ! 0 \<in> set (createClusters ex_docs ex_sims 35)"
    by (rule nth_mem) (simp add: length_createClusters_ex)
  from createClusters_threshold_mono [OF le, of ex_docs ex_sims] m2
  obtain c1 where c1: "c1 \<in> set (createClusters ex_docs ex_sims 35)"
    "set (documents (createClusters ex_docs ex_sims 50 ! 0)) \<subseteq> set (documents c1)" by blast
  from c1(1) obtain i where "i < length (createClusters ex_docs ex_sims 35)"
    "c1 = createClusters ex_docs ex_sims 35 ! i" by (auto simp: in_set_conv_nth)
  then have "c1 = createClusters ex_docs ex_sims 35 ! 0"
    by (simp add: length_createClusters_ex)
  with c1(2) le m1 m2 show ?thesis by simp
qed

text \<open>
  C2 as stated also says that the number of clusters does not grow with the threshold.
  On the example the single cluster at threshold 35 splits into two at threshold 50.
\<close>

theorem createClusters_count_counterexample:
  "(35::rat) \<le> 50
   \<and> length (createClusters ex_docs ex_sims 35) = 1
   \<and> length (createClusters ex_docs ex_sims 50) = 2
   \<and> \<not> length (createClusters ex_docs ex_sims 50) \<le> length (createClusters ex_docs ex_sims 35)"
  by (simp add: length_createClusters_ex)

theorem createClusters_partition_witness:
  "(0::nat) < length (createClusters ex_docs ex_sims 50)
   \<and> (1::nat) < length (createClusters ex_docs ex_sims 50) \<and> (0::nat) \<noteq> 1
   \<and> createClusters ex_docs ex_sims 50 ! 0 \<in> set (createClusters ex_docs ex_sims 50)
   \<and> set (documents (createClusters ex_docs ex_sims 50 ! 0))
       \<inter> set (documents (createClusters ex_docs ex_sims 50 ! 1)) = {}
   \<and> 2 \<le> card (set (documents (createClusters ex_docs ex_sims 50 ! 0)))
   \<and> map cluster_id (createClusters ex_docs ex_sims 50) = [0, 1]
   \<and> filter (\<lambda>component. length component > 1)
         (findConnectedComponents (buildGraph ex_docs ex_sims 50))
       = [[jsstr ''a'', jsstr ''b''], [jsstr ''c'', jsstr ''d'']]
   \<and> subseq [jsstr ''a'', jsstr ''c''] (map fst (buildGraph ex_docs ex_sims 50))"
proof -
  have l: "(0::nat) < length (createClusters ex_docs ex_sims 50)"
    "(1::nat) < length (createClusters ex_docs ex_sims 50)" "(0::nat) \<noteq> 1"
    by (simp_all add: length_createClusters_ex)
  have m: "createClusters ex_docs ex_sims 50 ! 0 \<in> set (createClusters ex_docs ex_sims 50)"
    by (rule nth_mem) (rule l(1))
  note p = createClusters_partition [of ex_docs ex_sims 50]
  from p l have "set (documents (createClusters ex_docs ex_sims 50 ! 0))
       \<inter> set (documents (createClusters ex_docs ex_sims 50 ! 1)) = {}" by blast
  moreover from p m have "2 \<le> card (set (documents (createClusters ex_docs ex_sims 50 ! 0)))"
    by blast
  moreover from p have "map cluster_id (createClusters ex_docs ex_sims 50) = [0, 1]"
    by (simp add: length_createClusters_ex upt_rec)
  moreover from p have "filter (\<lambda>component. length component > 1)
         (findConnectedComponents (buildGraph ex_docs ex_sims 50))
       = map documents (createClusters ex_docs ex_sims 50)"
    by simp
  then have "filter (\<lambda>component. length component > 1)
         (findConnectedComponents (buildGraph ex_docs ex_sims 50))
       = [[jsstr ''a'', jsstr ''b''], [jsstr ''c'', jsstr ''d'']]"
    by (simp only: createClusters_ex_50)
  moreover have "map (\<lambda>c. hd (documents c)) (createClusters ex_docs ex_sims 50)
      = map hd (map documents (createClusters ex_docs ex_sims 50))"
    by (simp add: comp_def)
  then have "map (\<lambda>c. hd (documents c)) (createClusters ex_docs ex_sims 50)
      = [jsstr ''a'', jsstr ''c'']"
    by (simp only: createClusters_ex_50 list.map list.sel)
  with p have "subseq [jsstr ''a'', jsstr ''c''] (map fst (buildGraph ex_docs ex_sims 50))"
    by simp
  ultimately show ?thesis using l m by simp
qed

section \<open>Rolling-hash search: patterns of at most 128 characters\<close>

lemma polyval_fold:
  "fold (\<lambda>c acc. acc * 256 + unat c) xs a = a * 256 ^ length xs + polyval xs"
proof (induction xs arbitrary: a)
  case Nil
  show ?case by (simp add: polyval_def)
next
  case (Cons x xs)
  have "fold (\<lambda>c acc. acc * 256 + unat c) (x # xs) a
      = (a * 256 + unat x) * 256 ^ length xs + polyval xs"
    using Cons [of "a * 256 + unat x"] by simp
  moreover have "polyval (x # xs) = unat x * 256 ^ length xs + polyval xs"
    using Cons [of "unat x"] by (simp add: polyval_def)
  ultimately show ?case by (simp add: algebra_simps)
qed

lemma polyval_Cons: "polyval (c # xs) = unat c * 256 ^ length xs + polyval xs"
  using polyval_fold [of xs "unat c"] by (simp add: polyval_def)

lemma polyval_snoc: "polyval (xs @ [c]) = polyval xs * 256 + unat c"
  by (simp add: polyval_def)

lemma hash_fold_mod:
  fixes xs :: jsstring
  shows "0 < p \<Longrightarrow> fold (\<lambda>c hash. (hash * 256 + unat c) mod p) xs a mod p
     = fold (\<lambda>c acc. acc * 256 + unat c) xs a mod p"
proof (induction xs arbitrary: a)
  case Nil
  show ?case by simp
next
  case (Cons x xs)
  have "fold (\<lambda>c hash. (hash * 256 + unat c) mod p) (x # xs) a mod p
      = fold (\<lambda>c acc. acc * 256 + unat c) xs ((a * 256 + unat x) mod p) mod p"
    using Cons by simp
  also have "\<dots> = (((a * 256 + unat x) mod p) * 256 ^ length xs + polyval xs) mod p"
    by (simp only: polyval_fold)
  also have "\<dots> = ((a * 256 + unat x) * 256 ^ length xs + polyval xs) mod p"
    by (metis mod_add_left_eq mod_mult_left_eq)
  also have "\<dots> = fold (\<lambda>c acc. acc * 256 + unat c) (x # xs) a mod p"
    by (simp add: polyval_fold)
  finally show ?case .
qed

lemma hash_fold_less:
  "0 < p \<Longrightarrow> a < p \<Longrightarrow> fold (\<lambda>c hash. (hash * 256 + unat c) mod p) xs a < p"
  by (induction xs arbitrary: a) simp_all

lemma rabinKarpHash_polyval: "rabinKarpHash xs 101 = polyval xs mod 101"
proof -
  have "rabinKarpHash xs 101 < 101"
    unfolding rabinKarpHash_def by (rule hash_fold_less) simp_all
  then have "rabinKarpHash xs 101 = rabinKarpHash xs 101 mod 101" by simp
  also have "\<dots> = polyval xs mod 101"
    unfolding rabinKarpHash_def polyval_def by (rule hash_fold_mod) simp
  finally show ?thesis .
qed

lemma roll_mod_gen:
  fixes c c' v b p K :: nat
  shows "(int b * (int ((c * K + v) mod p) - int c * int (K mod p)) + int c') mod int p
       = int ((v * b + c') mod p)"
proof -
  let ?X = "int (c * K + v)" and ?Y = "int K" and ?p = "int p"
  have 0: "(int c * (?Y mod ?p)) mod ?p = (int c * ?Y) mod ?p"
    by (rule mod_mult_right_eq)
  have 1: "(?X mod ?p - int c * (?Y mod ?p)) mod ?p = (?X - int c * ?Y) mod ?p"
    by (metis 0 mod_diff_eq mod_mod_trivial)
  have 2: "(int b * W + int c') mod ?p = (int b * (W mod ?p) + int c') mod ?p" for W
    by (metis mod_add_left_eq mod_mult_right_eq)
  have "(int b * (?X mod ?p - int c * (?Y mod ?p)) + int c') mod ?p
      = (int b * ((?X mod ?p - int c * (?Y mod ?p)) mod ?p) + int c') mod ?p"
    by (rule 2)
  also have "\<dots> = (int b * ((?X - int c * ?Y) mod ?p) + int c') mod ?p"
    by (simp only: 1)
  also have "\<dots> = (int b * (?X - int c * ?Y) + int c') mod ?p"
    by (rule 2 [symmetric])
  also have "?X - int c * ?Y = int v"
    by (simp only: of_nat_add of_nat_mult)
  also have "int b * int v + int c' = int (v * b + c')"
    by (simp add: mult.commute)
  finally show ?thesis by (simp only: zmod_int)
qed

lemma roll_mod:
  fixes c c' :: nat
  shows "(256 * (int ((c * 256 ^ k + v) mod 101) - int c * int (256 ^ k mod 101)) + int c') mod 101
       = int ((v * 256 + c') mod 101)"
  using roll_mod_gen [of 256 c "256 ^ k" v 101 c'] by (simp only: of_nat_numeral)

lemma fmod_nat: "fmod (of_nat a) 101 = of_nat (a mod 101)"
proof -
  have "\<lfloor>(of_nat a :: rat) / 101\<rfloor> = int (a div 101)"
    using floor_divide_of_nat_eq [of a 101, where ?'a = rat] by simp
  then have "fmod (of_nat a) 101 = of_nat a - 101 * of_nat (a div 101)"
    by (simp add: fmod_def)
  also have "\<dots> = of_nat (a mod 101)"
  proof -
    have "a = 101 * (a div 101) + a mod 101" by simp
    then have "(of_nat a :: rat) = of_nat (101 * (a div 101) + a mod 101)" by (rule arg_cong)
    then show ?thesis by (simp only: of_nat_add of_nat_mult of_nat_numeral)
  qed
  finally show ?thesis .
qed

lemma fmod_int_adjust:
  "(let t = fmod (of_int z) 101 in if t < 0 then t + 101 else t) = of_int (z mod 101)"
proof (cases "0 \<le> z")
  case True
  have "\<lfloor>(of_int z :: rat) / 101\<rfloor> = z div 101"
    using floor_divide_of_int_eq [of z 101, where ?'a = rat] by simp
  with True have "fmod (of_int z) 101 = of_int z - 101 * of_int (z div 101)"
    by (simp add: fmod_def)
  also have "\<dots> = of_int (z mod 101)"
  proof -
    have "z = 101 * (z div 101) + z mod 101" by simp
    then have "(of_int z :: rat) = of_int (101 * (z div 101) + z mod 101)" by (rule arg_cong)
    then show ?thesis by (simp only: of_int_add of_int_mult of_int_numeral)
  qed
  finally have t: "fmod (of_int z) 101 = of_int (z mod 101)" .
  have "\<not> (of_int (z mod 101) :: rat) < 0" by simp
  then show ?thesis unfolding Let_def t by (simp only: if_False)
next
  case False
  have "\<lceil>(of_int z :: rat) / 101\<rceil> = - ((- z) div 101)"
    using floor_divide_of_int_eq [of "- z" 101, where ?'a = rat]
    by (simp add: ceiling_def)
  with False have "fmod (of_int z) 101 = of_int z + 101 * of_int ((- z) div 101)"
    by (simp add: fmod_def)
  also have "\<dots> = of_int (z + 101 * ((- z) div 101))" by simp
  also have "z + 101 * ((- z) div 101) = - ((- z) mod 101)"
  proof -
    have "- z = 101 * ((- z) div 101) + (- z) mod 101" by simp
    then show ?thesis by linarith
  qed
  finally have t: "fmod (of_int z) 101 = of_int (- ((- z) mod 101))" .
  show ?thesis
  proof (cases "(- z) mod 101 = 0")
    case True
    then have "z mod 101 = 0" by (metis mod_minus_eq minus_zero mod_0 add.inverse_inverse)
    with True t show ?thesis by (simp add: Let_def)
  next
    case nz: False
    then have pos: "0 < (- z) mod 101" by (simp add: less_le)
    have "z mod 101 = 101 - (- z) mod 101"
      using nz by (metis zmod_zminus1_eq_if add.inverse_inverse)
    moreover have "(of_int (- ((- z) mod 101)) :: rat) < 0" using pos by simp
    ultimately show ?thesis unfolding t Let_def by simp
  qed
qed

lemma pow256_rem_short:
  assumes "1 \<le> m" "m \<le> 128"
  shows "pow256_rem (int m - 1) = Num (of_nat (256 ^ (m - 1) mod 101))"
proof -
  have e: "int m - 1 = int (m - 1)" using assms(1) by simp
  have "power_int (256::rat) (int (m - 1)) = of_nat (256 ^ (m - 1))"
    by (simp add: power_int_def)
  moreover have "\<not> 128 \<le> int (m - 1)" using assms by simp
  ultimately show ?thesis unfolding pow256_rem_def e by (simp only: if_False fmod_nat)
qed

text \<open>Sliding the window by one character.\<close>

lemma window_slide:
  assumes "1 \<le> m" "i + m < length text"
  shows "take m (drop i text) = text ! i # take (m - 1) (drop (Suc i) text)"
    and "take m (drop (Suc i) text) = take (m - 1) (drop (Suc i) text) @ [text ! (i + m)]"
proof -
  obtain k where m: "m = Suc k" using assms(1) by (cases m) auto
  have i: "i < length text" using assms(2) by simp
  show "take m (drop i text) = text ! i # take (m - 1) (drop (Suc i) text)"
    unfolding m using i by (simp add: Cons_nth_drop_Suc [symmetric])
  have "k < length (drop (Suc i) text)" using assms(2) m by simp
  then have "take (Suc k) (drop (Suc i) text) = take k (drop (Suc i) text) @ [drop (Suc i) text ! k]"
    by (rule take_Suc_conv_app_nth)
  moreover have "drop (Suc i) text ! k = text ! (i + m)"
    using assms(2) m by simp
  ultimately show "take m (drop (Suc i) text) = take (m - 1) (drop (Suc i) text) @ [text ! (i + m)]"
    unfolding m by simp
qed

lemma hash_slide:
  assumes "1 \<le> m" "i + m < length text"
  shows "(256 * (int (rabinKarpHash (take m (drop i text)) 101)
                 - int (unat (text ! i)) * int (256 ^ (m - 1) mod 101))
          + int (unat (text ! (i + m)))) mod 101
       = int (rabinKarpHash (take m (drop (Suc i) text)) 101)"
proof -
  let ?rest = "take (m - 1) (drop (Suc i) text)"
  have l: "length ?rest = m - 1" using assms by simp
  show ?thesis
    unfolding rabinKarpHash_polyval window_slide [OF assms] polyval_Cons polyval_snoc l
    by (rule roll_mod)
qed

lemma rk_roll:
  assumes m: "1 \<le> m" and i: "i + m < length text"
  shows "(let t = js_rem (js_add
                    (js_mul (Num 256)
                       (js_sub (Num (of_nat (rabinKarpHash (take m (drop i text)) 101)))
                          (js_mul (charCodeAt text i) (Num (of_nat (256 ^ (m - 1) mod 101))))))
                    (charCodeAt text (i + m))) 101
          in if js_lt t (Num 0) then js_add t (Num 101) else t)
       = Num (of_nat (rabinKarpHash (take m (drop (Suc i) text)) 101))"
proof -
  let ?z = "256 * (int (rabinKarpHash (take m (drop i text)) 101)
                 - int (unat (text ! i)) * int (256 ^ (m - 1) mod 101))
          + int (unat (text ! (i + m)))"
  have c: "charCodeAt text i = Num (of_nat (unat (text ! i)))"
    "charCodeAt text (i + m) = Num (of_nat (unat (text ! (i + m))))"
    using i by (simp_all add: charCodeAt_def)
  have "js_add (js_mul (Num 256)
           (js_sub (Num (of_nat (rabinKarpHash (take m (drop i text)) 101)))
              (js_mul (charCodeAt text i) (Num (of_nat (256 ^ (m - 1) mod 101))))))
           (charCodeAt text (i + m)) = Num (of_int ?z)"
    unfolding c by simp
  then have "(let t = js_rem (js_add
                    (js_mul (Num 256)
                       (js_sub (Num (of_nat (rabinKarpHash (take m (drop i text)) 101)))
                          (js_mul (charCodeAt text i) (Num (of_nat (256 ^ (m - 1) mod 101))))))
                    (charCodeAt text (i + m))) 101
          in if js_lt t (Num 0) then js_add t (Num 101) else t)
       = Num (let t = fmod (of_int ?z) 101 in if t < 0 then t + 101 else t)"
    by (simp add: Let_def)
  also have "\<dots> = Num (of_int (?z mod 101))"
    by (simp only: fmod_int_adjust)
  also have "?z mod 101 = int (rabinKarpHash (take m (drop (Suc i) text)) 101)"
    by (rule hash_slide [OF assms])
  finally show ?thesis by simp
qed

lemma rk_step_short:
  assumes m: "1 \<le> length pattern" and le: "length pattern \<le> length text"
    and i: "i \<le> length text - length pattern"
    and ms: "fst st = filter (\<lambda>i. take (length pattern) (drop i text) = pattern) [0 ..< i]"
    and th: "snd st = Num (of_nat (rabinKarpHash (take (length pattern) (drop i text)) 101))"
  shows "fst (rk_step text pattern (Num (of_nat (rabinKarpHash pattern 101)))
             (Num (of_nat (256 ^ (length pattern - 1) mod 101))) i st)
           = filter (\<lambda>i. take (length pattern) (drop i text) = pattern) [0 ..< Suc i]"
    and "i < length text - length pattern \<Longrightarrow>
         snd (rk_step text pattern (Num (of_nat (rabinKarpHash pattern 101)))
             (Num (of_nat (256 ^ (length pattern - 1) mod 101))) i st)
           = Num (of_nat (rabinKarpHash (take (length pattern) (drop (Suc i) text)) 101))"
proof -
  let ?m = "length pattern"
  have "fst (rk_step text pattern (Num (of_nat (rabinKarpHash pattern 101)))
             (Num (of_nat (256 ^ (?m - 1) mod 101))) i st)
      = (if rabinKarpHash pattern 101 = rabinKarpHash (take ?m (drop i text)) 101
         then (if take ?m (drop i text) = pattern then fst st @ [i] else fst st)
         else fst st)"
    unfolding rk_step_def Let_def th substring_take_drop by simp
  also have "\<dots> = fst st @ (if take ?m (drop i text) = pattern then [i] else [])"
    by auto
  finally show "fst (rk_step text pattern (Num (of_nat (rabinKarpHash pattern 101)))
             (Num (of_nat (256 ^ (?m - 1) mod 101))) i st)
           = filter (\<lambda>i. take ?m (drop i text) = pattern) [0 ..< Suc i]"
    unfolding ms by simp
  assume lt: "i < length text - ?m"
  then have im: "i + ?m < length text" by simp
  show "snd (rk_step text pattern (Num (of_nat (rabinKarpHash pattern 101)))
             (Num (of_nat (256 ^ (?m - 1) mod 101))) i st)
           = Num (of_nat (rabinKarpHash (take ?m (drop (Suc i) text)) 101))"
    using rk_roll [OF m im] lt unfolding rk_step_def th Let_def by simp
qed

text \<open>
  For a pattern of 1 to 128 characters the multiplier is a number, the rolling hash is the
  hash of the current window at every offset, and \<open>rabinKarpSearch\<close> returns exactly the
  offsets of the occurrences, in increasing order.
\<close>

lemma rabinKarpSearch_short_pattern:
  assumes m: "1 \<le> length pattern" "length pattern \<le> 128"
  shows "rabinKarpSearch text pattern
       = filter (\<lambda>i. i + length pattern \<le> length text \<and> take (length pattern) (drop i text) = pattern)
           [0 ..< Suc (length text)]"
proof (cases "length pattern \<le> length text")
  case False
  then have "rabinKarpSearch text pattern = []" by (simp add: rabinKarpSearch_def Let_def)
  moreover from False have "filter (\<lambda>i. i + length pattern \<le> length text
      \<and> take (length pattern) (drop i text) = pattern) [0 ..< Suc (length text)] = []"
    by (auto simp: filter_empty_conv simp del: upt_Suc)
  ultimately show ?thesis by simp
next
  case True
  let ?m = "length pattern" and ?n = "length text"
  let ?Q = "\<lambda>i. take ?m (drop i text) = pattern"
  let ?step = "rk_step text pattern (Num (of_nat (rabinKarpHash pattern 101)))
      (Num (of_nat (256 ^ (?m - 1) mod 101)))"
  let ?st0 = "([]::nat list, Num (of_nat (rabinKarpHash (substring text 0 ?m) 101)))"
  have inv: "fst (fold ?step [0 ..< Suc (?n - ?m)] ?st0) = filter ?Q [0 ..< Suc (?n - ?m)]
      \<and> (Suc (?n - ?m) \<le> ?n - ?m \<longrightarrow> snd (fold ?step [0 ..< Suc (?n - ?m)] ?st0)
            = Num (of_nat (rabinKarpHash (take ?m (drop (Suc (?n - ?m)) text)) 101)))"
  proof (rule fold_upt_inv [where P = "\<lambda>i st. fst st = filter ?Q [0 ..< i]
      \<and> (i \<le> ?n - ?m \<longrightarrow> snd st = Num (of_nat (rabinKarpHash (take ?m (drop i text)) 101)))"])
    show "0 \<le> Suc (?n - ?m)" by simp
    show "fst ?st0 = filter ?Q [0 ..< 0]
        \<and> (0 \<le> ?n - ?m \<longrightarrow> snd ?st0 = Num (of_nat (rabinKarpHash (take ?m (drop 0 text)) 101)))"
      by (simp add: substring_0)
  next
    fix i st
    assume i: "0 \<le> i" "i < Suc (?n - ?m)"
      and P: "fst st = filter ?Q [0 ..< i]
        \<and> (i \<le> ?n - ?m \<longrightarrow> snd st = Num (of_nat (rabinKarpHash (take ?m (drop i text)) 101)))"
    from i have i': "i \<le> ?n - ?m" by simp
    with P have ms: "fst st = filter ?Q [0 ..< i]"
      and th: "snd st = Num (of_nat (rabinKarpHash (take ?m (drop i text)) 101))" by simp_all
    from rk_step_short [OF m(1) True i' ms th]
    show "fst (?step i st) = filter ?Q [0 ..< Suc i]
        \<and> (Suc i \<le> ?n - ?m \<longrightarrow> snd (?step i st)
              = Num (of_nat (rabinKarpHash (take ?m (drop (Suc i) text)) 101)))"
      by (simp add: Suc_le_eq)
  qed
  have "rabinKarpSearch text pattern = filter ?Q [0 ..< Suc (?n - ?m)]"
    using True inv unfolding rabinKarpSearch_def Let_def pow256_rem_short [OF m]
    by (simp del: upt_Suc)
  also have "\<dots> = filter (\<lambda>i. i + ?m \<le> ?n \<and> ?Q i) [0 ..< Suc (?n - ?m)]"
    using True by (intro filter_cong) auto
  also have "\<dots> = filter (\<lambda>i. i + ?m \<le> ?n \<and> ?Q i) ([0 ..< Suc (?n - ?m)] @ [Suc (?n - ?m) ..< Suc ?n])"
    by (auto simp: filter_empty_conv simp del: upt_Suc)
  also have "[0 ..< Suc (?n - ?m)] @ [Suc (?n - ?m) ..< Suc ?n] = [0 ..< Suc ?n]"
  proof -
    have e: "Suc (?n - ?m) + ?m = Suc ?n" using True by simp
    show ?thesis using upt_add_eq_append [of 0 "Suc (?n - ?m)" ?m] unfolding e by simp
  qed
  finally show ?thesis .
qed

end
